theory Spec2Isabelle
  imports Main
begin

section \<open>Regular expressions as the two scripts use them\<close>

text \<open>
  Both scripts are a single call chain \<^verbatim>\<open>open/read\<close>, \<^verbatim>\<open>re.sub\<close>, \<^verbatim>\<open>open/write\<close>.
  The text of a file is a \<^typ>\<open>string\<close>: a list of characters with code points below 256.
  On these code points Python's \<^verbatim>\<open>\s\<close> (for a \<^verbatim>\<open>str\<close> pattern) is
  \<^verbatim>\<open>\t \n \v \f \r\<close>, \<^verbatim>\<open>0x1c..0x1f\<close>, the blank, \<^verbatim>\<open>0x85\<close> and \<^verbatim>\<open>0xa0\<close>; and
  \<^verbatim>\<open>\d\<close> is \<^verbatim>\<open>0..9\<close>.
\<close>

datatype cls = Space | Digit | Not char

fun memb :: "cls \<Rightarrow> char \<Rightarrow> bool" where
  "memb Space c = (c \<in> set [CHR 0x09, CHR 0x0A, CHR 0x0B, CHR 0x0C, CHR 0x0D, CHR 0x1C,
                              CHR 0x1D, CHR 0x1E, CHR 0x1F, CHR 0x20, CHR 0x85, CHR 0xA0])"
| "memb Digit c = (c \<in> set ''0123456789'')"
| "memb (Not x) c = (c \<noteq> x)"

text \<open>
  The pattern syntax that occurs in the scripts: literal text, a greedy \<^verbatim>\<open>+\<close> or
  \<^verbatim>\<open>*\<close> over a one-character class, a greedy optional \<^verbatim>\<open>(...)?\<close>, a numbered capture
  group and concatenation.
\<close>

datatype re = Lit string | Plus cls | Star cls | Opt re | Grp nat re | Seq re re

fun cat :: "re list \<Rightarrow> re" where
  "cat [] = Lit []"
| "cat [r] = r"
| "cat (r # rs) = Seq r (cat rs)"

type_synonym caps = "(nat \<times> string) list"

text \<open>
  \<open>rests k s\<close>: what can remain of \<open>s\<close> after a greedy repetition over the class \<open>k\<close>,
  in the order the backtracking engine tries it (longest run first).
\<close>

fun rests :: "cls \<Rightarrow> string \<Rightarrow> string list" where
  "rests k [] = [[]]"
| "rests k (x # xs) = (if memb k x then rests k xs @ [x # xs] else [x # xs])"

text \<open>
  \<open>ms r s c\<close>: every way \<open>r\<close> matches a prefix of \<open>s\<close>, as the remaining text and the
  capture groups set so far, in the engine's order of preference. A group records the text
  it consumed; the most recent binding of a group is first in the list.
\<close>

fun ms :: "re \<Rightarrow> string \<Rightarrow> caps \<Rightarrow> (string \<times> caps) list" where
  "ms (Lit l) s c = (if take (length l) s = l then [(drop (length l) s, c)] else [])"
| "ms (Plus k) s c =
     (case s of [] \<Rightarrow> []
      | x # xs \<Rightarrow> if memb k x then map (\<lambda>r. (r, c)) (rests k xs) else [])"
| "ms (Star k) s c = map (\<lambda>r. (r, c)) (rests k s)"
| "ms (Opt r) s c = ms r s c @ [(s, c)]"
| "ms (Grp n r) s c =
     map (\<lambda>(rest, c'). (rest, (n, take (length s - length rest) s) # c')) (ms r s c)"
| "ms (Seq a b) s c = concat (map (\<lambda>(rest, c'). ms b rest c') (ms a s c))"

text \<open>
  The same function with the step over the alternatives of a concatenation written as a
  recursion on the list, which is how it is evaluated.
\<close>

definition seqs :: "re \<Rightarrow> (string \<times> caps) list \<Rightarrow> (string \<times> caps) list" where
  "seqs b xs = concat (map (\<lambda>(rest, c'). ms b rest c') xs)"

lemma seqs_code [code]:
  "seqs b [] = []"
  "seqs b ((rest, c') # xs) = ms b rest c' @ seqs b xs"
  by (simp_all add: seqs_def)

lemma ms_code [code]:
  "ms (Lit l) s c = (if take (length l) s = l then [(drop (length l) s, c)] else [])"
  "ms (Plus k) s c =
     (case s of [] \<Rightarrow> []
      | x # xs \<Rightarrow> if memb k x then map (\<lambda>r. (r, c)) (rests k xs) else [])"
  "ms (Star k) s c = map (\<lambda>r. (r, c)) (rests k s)"
  "ms (Opt r) s c = ms r s c @ [(s, c)]"
  "ms (Grp n r) s c =
     map (\<lambda>(rest, c'). (rest, (n, take (length s - length rest) s) # c')) (ms r s c)"
  "ms (Seq a b) s c = seqs b (ms a s c)"
  by (simp_all add: seqs_def)

text \<open>
  The match the engine reports at the start of \<open>s\<close>: the first one in its order; after an
  empty match, \<^verbatim>\<open>re.sub\<close> asks for a non-empty one at the same place (\<open>must\<close>).
\<close>

definition match_here :: "re \<Rightarrow> bool \<Rightarrow> string \<Rightarrow> (string \<times> caps) option" where
  "match_here r must s =
     (case filter (\<lambda>(rest, c). \<not> must \<or> rest \<noteq> s) (ms r s []) of
        [] \<Rightarrow> None
      | m # _ \<Rightarrow> Some m)"

lemma rests_suffix: "r \<in> set (rests k s) \<Longrightarrow> \<exists>v. s = v @ r"
proof (induction s)
  case Nil
  then show ?case by simp
next
  case (Cons x xs)
  show ?case
  proof (cases "r = x # xs")
    case True
    then show ?thesis by simp
  next
    case False
    with Cons.prems have "r \<in> set (rests k xs)" by (auto split: if_splits)
    then obtain v where "xs = v @ r" using Cons.IH by blast
    then have "x # xs = (x # v) @ r" by simp
    then show ?thesis by blast
  qed
qed

lemma ms_suffix: "(rest, c') \<in> set (ms r s c) \<Longrightarrow> \<exists>v. s = v @ rest"
proof (induction r arbitrary: s c rest c')
  case (Lit l)
  then have "s = l @ rest" by (auto split: if_splits) (metis append_take_drop_id)
  then show ?case by blast
next
  case (Plus k)
  then obtain x xs where s: "s = x # xs" and "rest \<in> set (rests k xs)"
    by (auto split: list.splits if_splits)
  then obtain v where "xs = v @ rest" using rests_suffix by blast
  with s have "s = (x # v) @ rest" by simp
  then show ?case by blast
next
  case (Star k)
  then show ?case by (auto dest: rests_suffix)
next
  case (Opt r)
  then show ?case by auto
next
  case (Grp n r)
  then show ?case by auto
next
  case (Seq a b)
  from Seq.prems obtain mid cm where 1: "(mid, cm) \<in> set (ms a s c)"
    and 2: "(rest, c') \<in> set (ms b mid cm)" by auto
  from Seq.IH(1)[OF 1] obtain u where "s = u @ mid" by blast
  moreover from Seq.IH(2)[OF 2] obtain v where "mid = v @ rest" by blast
  ultimately have "s = (u @ v) @ rest" by simp
  then show ?case by blast
qed

lemma match_here_set:
  "match_here r must s = Some (rest, c) \<Longrightarrow>
     (rest, c) \<in> set (ms r s []) \<and> (must \<longrightarrow> rest \<noteq> s)"
proof -
  assume h: "match_here r must s = Some (rest, c)"
  let ?P = "\<lambda>(rest, c). \<not> must \<or> rest \<noteq> s"
  from h obtain ys where "filter ?P (ms r s []) = (rest, c) # ys"
    by (auto simp: match_here_def split: list.splits)
  then have "(rest, c) \<in> set (filter ?P (ms r s []))" by simp
  then show ?thesis by auto
qed

lemma match_here_shorter:
  assumes "match_here r must s = Some (rest, c)"
  shows "length rest \<le> length s" and "length rest = length s \<Longrightarrow> \<not> must"
proof -
  from assms have m: "(rest, c) \<in> set (ms r s [])" and n: "must \<longrightarrow> rest \<noteq> s"
    using match_here_set by blast+
  from ms_suffix[OF m] obtain v where v: "s = v @ rest" by blast
  then show "length rest \<le> length s" by simp
  show "length rest = length s \<Longrightarrow> \<not> must" using v n by auto
qed

text \<open>
  The loop of \<^verbatim>\<open>re.sub\<close>: search for the leftmost match from the current position (try
  the position, else copy one character and try the next); replace it, and go on from its
  end. The pieces of the text are kept in the order the loop produces them.
\<close>

datatype piece = Keep char | Hit string caps

function pieces :: "re \<Rightarrow> bool \<Rightarrow> string \<Rightarrow> piece list" where
  "pieces r must s =
     (case match_here r must s of
        Some (rest, c) \<Rightarrow>
          Hit (take (length s - length rest) s) c # pieces r (length rest = length s) rest
      | None \<Rightarrow> (case s of [] \<Rightarrow> [] | x # xs \<Rightarrow> Keep x # pieces r False xs))"
  by pat_completeness auto
termination
proof (relation "measure (\<lambda>(r, must, s). 2 * length s + (if must then 0 else 1))")
  show "wf (measure (\<lambda>(r, must, s). 2 * length s + (if must then 0 else 1)))" by simp
next
  fix r :: re and must :: bool and s :: string and m :: "string \<times> caps" and rest c
  assume "match_here r must s = Some m" and "(rest, c) = m"
  then have m: "match_here r must s = Some (rest, c)" by simp
  show "((r, length rest = length s, rest), r, must, s)
    \<in> measure (\<lambda>(r, must, s). 2 * length s + (if must then 0 else 1))"
    using match_here_shorter[OF m] by auto
next
  fix r :: re and must :: bool and s :: string and x xs
  assume "match_here r must s = None" and "s = x # xs"
  then show "((r, False, xs), r, must, s)
    \<in> measure (\<lambda>(r, must, s). 2 * length s + (if must then 0 else 1))" by simp
qed

declare pieces.simps [simp del]

fun source :: "piece \<Rightarrow> string" where
  "source (Keep x) = [x]"
| "source (Hit m c) = m"

fun render :: "(caps \<Rightarrow> string) \<Rightarrow> piece \<Rightarrow> string" where
  "render f (Keep x) = [x]"
| "render f (Hit m c) = f c"

definition re_sub :: "re \<Rightarrow> (caps \<Rightarrow> string) \<Rightarrow> string \<Rightarrow> string" where
  "re_sub r f s = concat (map (render f) (pieces r False s))"


section \<open>The rules of the two scripts\<close>

abbreviation nl :: char where "nl \<equiv> CHR 0x0A"
abbreviation sq :: char where "sq \<equiv> CHR 0x27"

text \<open>
  \<^verbatim>\<open>match.group(n)\<close> inside an f-string: the text of the group, or \<^verbatim>\<open>None\<close> printed
  when the group took no part in the match. A back-reference \<^verbatim>\<open>\n\<close> of a string template
  is empty for such a group.
\<close>

definition group :: "caps \<Rightarrow> nat \<Rightarrow> string" where
  "group c n = (case map_of c n of None \<Rightarrow> ''None'' | Some t \<Rightarrow> t)"

datatype titem = T string | Ref nat

fun expand :: "caps \<Rightarrow> titem list \<Rightarrow> string" where
  "expand c [] = []"
| "expand c (T t # ts) = t @ expand c ts"
| "expand c (Ref n # ts) = (case map_of c n of None \<Rightarrow> [] | Some t \<Rightarrow> t) @ expand c ts"

subsection \<open>fix-megaprompt-tests.py\<close>

definition mp_filepath :: string where
  "mp_filepath = ''src/services/v2/synthesis/__tests__/MegaPromptGenerator.test.ts''"

text \<open>The pattern of the first rule; \<open>mp_body\<close> is what its group 2 encloses.\<close>

definition mp_body :: re where
  "mp_body = cat
    [Lit (''{'' @ [nl]),
     Plus Space, Lit (''extractorId: '' @ [sq]), Grp 3 (Plus (Not sq)), Lit ([sq] @ '','' @ [nl]),
     Plus Space, Lit ''confidence: '', Grp 4 (cat [Lit ''0.'', Plus Digit]), Lit ('','' @ [nl]),
     Plus Space, Lit ''dataPoints: '', Grp 5 (Plus Digit), Lit ('','' @ [nl]),
     Plus Space, Lit ''data: '',
       Grp 6 (cat [Lit ''{'', Plus (Not (CHR ''}'')), Lit ''}'']), Lit ('','' @ [nl]),
     Plus Space, Lit (''timestamp: Date.now(),'' @ [nl]),
     Plus Space, Lit ''duration: '', Grp 7 (Plus Digit), Lit ('','' @ [nl]),
     Plus Space, Lit ''}'']"

definition mp_pattern :: re where
  "mp_pattern = cat [Grp 1 (Plus Space), Grp 2 mp_body, Lit '' as ExtractionResult'']"

definition mp_replacement :: "caps \<Rightarrow> string" where
  "mp_replacement c =
    (let indent = group c 1;
         extractorId = group c 3;
         confidence = group c 4;
         dataPoints = group c 5;
         data = group c 6;
         duration = group c 7
     in concat
       [indent, ''{'', [nl],
        indent, ''  success: true,'', [nl],
        indent, ''  data: '', data, '','', [nl],
        indent, ''  confidence: {'', [nl],
        indent, ''    overall: '', confidence, '','', [nl],
        indent, ''    dataQuality: '', confidence, '','', [nl],
        indent, ''    sourceCount: '', dataPoints, '','', [nl],
        indent, ''  },'', [nl],
        indent, ''  metadata: {'', [nl],
        indent, ''    extractorId: '', [sq], extractorId, [sq], '','', [nl],
        indent, ''    taskType: '', [sq], ''customer_profile'', [sq], '' as any,'', [nl],
        indent, ''    model: '', [sq], ''HAIKU'', [sq], '' as any,'', [nl],
        indent, ''    fromCache: false,'', [nl],
        indent, ''    timing: { total: '', duration, '' },'', [nl],
        indent, ''    timestamp: Date.now(),'', [nl],
        indent, ''  },'', [nl],
        indent, ''} as any''])"

definition mp_body2 :: re where
  "mp_body2 = cat
    [Lit (''{'' @ [nl]),
     Plus Space, Lit (''extractorId: '' @ [sq]), Grp 3 (Plus (Not sq)), Lit ([sq] @ '','' @ [nl]),
     Plus Space, Lit ''confidence: '', Grp 4 (cat [Lit ''0.'', Plus Digit]), Lit ('','' @ [nl]),
     Plus Space, Lit ''dataPoints: '', Grp 5 (Plus Digit), Lit ('','' @ [nl]),
     Plus Space, Lit (''data: {},'' @ [nl]),
     Plus Space, Lit ''metadata: { insights: ['', Plus (Not (CHR '']'')), Lit (''] },'' @ [nl]),
     Plus Space, Lit (''timestamp: Date.now(),'' @ [nl]),
     Plus Space, Lit ''duration: '', Grp 6 (Plus Digit), Lit ('','' @ [nl]),
     Plus Space, Lit ''}'']"

definition mp_pattern2 :: re where
  "mp_pattern2 = cat [Grp 1 (Plus Space), Grp 2 mp_body2, Lit '' as ExtractionResult'']"

definition mp_replacement2 :: "caps \<Rightarrow> string" where
  "mp_replacement2 c =
    (let indent = group c 1;
         extractorId = group c 3;
         confidence = group c 4;
         dataPoints = group c 5;
         duration = group c 6
     in concat
       [indent, ''{'', [nl],
        indent, ''  success: true,'', [nl],
        indent, ''  data: {},'', [nl],
        indent, ''  confidence: {'', [nl],
        indent, ''    overall: '', confidence, '','', [nl],
        indent, ''    dataQuality: '', confidence, '','', [nl],
        indent, ''    sourceCount: '', dataPoints, '','', [nl],
        indent, ''  },'', [nl],
        indent, ''  metadata: {'', [nl],
        indent, ''    extractorId: '', [sq], extractorId, [sq], '','', [nl],
        indent, ''    taskType: '', [sq], ''customer_profile'', [sq], '' as any,'', [nl],
        indent, ''    model: '', [sq], ''HAIKU'', [sq], '' as any,'', [nl],
        indent, ''    fromCache: false,'', [nl],
        indent, ''    timing: { total: '', duration, '' },'', [nl],
        indent, ''    timestamp: Date.now(),'', [nl],
        indent, ''  },'', [nl],
        indent, ''} as any''])"

text \<open>The two substitutions of the script, the second on the result of the first.\<close>

definition mp_rewrite :: "string \<Rightarrow> string" where
  "mp_rewrite content =
     re_sub mp_pattern2 mp_replacement2 (re_sub mp_pattern mp_replacement content)"

subsection \<open>fix-synthesis-tests.py\<close>

definition syn_filepath :: string where
  "syn_filepath = ''src/services/v2/synthesis/__tests__/OpusSynthesisService.test.ts''"

definition syn_pattern :: re where
  "syn_pattern = cat
    [Lit (''          {'' @ [nl] @ ''            extractorId: '' @ [sq]),
     Grp 1 (Plus (Not sq)),
     Lit ([sq] @ '','' @ [nl] @ ''            confidence: ''),
     Grp 2 (cat [Lit ''0.'', Plus Digit]),
     Opt (Grp 3 (Lit '' as any'')),
     Lit ('','' @ [nl] @ ''            dataPoints: ''),
     Grp 4 (Plus Digit),
     Lit ('','' @ [nl] @ ''            data: ''),
     Grp 5 (cat [Lit ''{'', Star (Not (CHR ''}'')), Lit ''}'']),
     Lit ('','' @ [nl] @ ''            timestamp: Date.now(),'' @ [nl] @ ''            duration: ''),
     Grp 6 (Plus Digit),
     Lit ('','' @ [nl] @ ''          }'')]"

definition syn_template :: "titem list" where
  "syn_template =
    [T (''          {'' @ [nl]),
     T (''            success: true,'' @ [nl]),
     T ''            data: '', Ref 5, T ('','' @ [nl]),
     T (''            confidence: {'' @ [nl]),
     T ''              overall: '', Ref 2, T ('','' @ [nl]),
     T ''              dataQuality: '', Ref 2, T ('','' @ [nl]),
     T ''              sourceCount: '', Ref 4, T ('','' @ [nl]),
     T (''            },'' @ [nl]),
     T (''            metadata: {'' @ [nl]),
     T (''              extractorId: '' @ [sq]), Ref 1, T ([sq] @ '','' @ [nl]),
     T (''              taskType: '' @ [sq] @ ''customer_profile'' @ [sq] @ '' as any,'' @ [nl]),
     T (''              model: '' @ [sq] @ ''HAIKU'' @ [sq] @ '' as any,'' @ [nl]),
     T (''              fromCache: false,'' @ [nl]),
     T ''              timing: { total: '', Ref 6, T ('' },'' @ [nl]),
     T (''              timestamp: Date.now(),'' @ [nl]),
     T (''            },'' @ [nl]),
     T ''          } as any'']"

definition syn_replacement :: "caps \<Rightarrow> string" where
  "syn_replacement c = expand c syn_template"

definition syn_rewrite :: "string \<Rightarrow> string" where
  "syn_rewrite content = re_sub syn_pattern syn_replacement content"

subsection \<open>The scripts as programs over the file system\<close>

text \<open>
  A file system maps a path to the text of the file there. \<^verbatim>\<open>open(filepath, 'r')\<close>
  raises \<^verbatim>\<open>FileNotFoundError\<close> when there is none; the exception is not caught, so the
  interpreter prints the trace and exits with status 1. Otherwise the script reads the
  text, rewrites it, writes it back and prints one line.
\<close>

type_synonym fs = "string \<Rightarrow> string option"

datatype error = FileNotFoundError

record outcome =
  raised :: "error option"
  files :: fs
  stdout :: "string list"

definition exit_status :: "outcome \<Rightarrow> nat" where
  "exit_status out = (case raised out of None \<Rightarrow> 0 | Some e \<Rightarrow> 1)"

definition run_script :: "string \<Rightarrow> (string \<Rightarrow> string) \<Rightarrow> fs \<Rightarrow> outcome" where
  "run_script filepath rewrite fs =
     (case fs filepath of
        None \<Rightarrow> \<lparr>raised = Some FileNotFoundError, files = fs, stdout = []\<rparr>
      | Some content \<Rightarrow>
          \<lparr>raised = None, files = fs(filepath \<mapsto> rewrite content),
           stdout = [''Fixed '' @ filepath]\<rparr>)"

definition fix_megaprompt_tests :: "fs \<Rightarrow> outcome" where
  "fix_megaprompt_tests = run_script mp_filepath mp_rewrite"

definition fix_synthesis_tests :: "fs \<Rightarrow> outcome" where
  "fix_synthesis_tests = run_script syn_filepath syn_rewrite"


subsection \<open>Sample texts\<close>

text \<open>
  The object literal of the specification's example, as the one line the specification
  writes it (\<open>c1_literal\<close>), and the same fields laid out the way each script's pattern
  reads them (\<open>mp_flat\<close>, \<open>syn_flat\<close>), with the text each script is to produce.
\<close>

definition c1_literal :: string where
  "c1_literal = ''{ extractorId: '' @ [sq] @ ''demographics'' @ [sq] @
     '', confidence: 0.85, dataPoints: 3, data: {foo: 1}, timestamp: Date.now(), duration: 120 }''"

definition mp_flat :: string where
  "mp_flat = concat
     [''      {'', [nl],
      ''        extractorId: '', [sq], ''demographics'', [sq], '','', [nl],
      ''        confidence: 0.85,'', [nl],
      ''        dataPoints: 3,'', [nl],
      ''        data: {foo: 1},'', [nl],
      ''        timestamp: Date.now(),'', [nl],
      ''        duration: 120,'', [nl],
      ''      } as ExtractionResult'']"

definition mp_nested :: string where
  "mp_nested = concat
     [''      {'', [nl],
      ''        success: true,'', [nl],
      ''        data: {foo: 1},'', [nl],
      ''        confidence: {'', [nl],
      ''          overall: 0.85,'', [nl],
      ''          dataQuality: 0.85,'', [nl],
      ''          sourceCount: 3,'', [nl],
      ''        },'', [nl],
      ''        metadata: {'', [nl],
      ''          extractorId: '', [sq], ''demographics'', [sq], '','', [nl],
      ''          taskType: '', [sq], ''customer_profile'', [sq], '' as any,'', [nl],
      ''          model: '', [sq], ''HAIKU'', [sq], '' as any,'', [nl],
      ''          fromCache: false,'', [nl],
      ''          timing: { total: 120 },'', [nl],
      ''          timestamp: Date.now(),'', [nl],
      ''        },'', [nl],
      ''      } as any'']"

definition syn_flat :: string where
  "syn_flat = concat
     [''          {'', [nl],
      ''            extractorId: '', [sq], ''demographics'', [sq], '','', [nl],
      ''            confidence: 0.85,'', [nl],
      ''            dataPoints: 3,'', [nl],
      ''            data: {foo: 1},'', [nl],
      ''            timestamp: Date.now(),'', [nl],
      ''            duration: 120,'', [nl],
      ''          }'']"

definition syn_nested :: string where
  "syn_nested = concat
     [''          {'', [nl],
      ''            success: true,'', [nl],
      ''            data: {foo: 1},'', [nl],
      ''            confidence: {'', [nl],
      ''              overall: 0.85,'', [nl],
      ''              dataQuality: 0.85,'', [nl],
      ''              sourceCount: 3,'', [nl],
      ''            },'', [nl],
      ''            metadata: {'', [nl],
      ''              extractorId: '', [sq], ''demographics'', [sq], '','', [nl],
      ''              taskType: '', [sq], ''customer_profile'', [sq], '' as any,'', [nl],
      ''              model: '', [sq], ''HAIKU'', [sq], '' as any,'', [nl],
      ''              fromCache: false,'', [nl],
      ''              timing: { total: 120 },'', [nl],
      ''              timestamp: Date.now(),'', [nl],
      ''            },'', [nl],
      ''          } as any'']"

subsection \<open>The flat shape\<close>

text \<open>
  The text the patterns describe, with its variable parts as parameters: the blanks before
  each line (\<open>w1\<close> to \<open>w7\<close>), the extractor id \<open>e\<close>, the confidence \<open>cf\<close>, the
  data points \<open>dp\<close>, the data \<open>d\<close> and the duration \<open>du\<close>.
\<close>

definition spaces :: "string \<Rightarrow> bool" where
  "spaces w = (w \<noteq> [] \<and> (\<forall>x\<in>set w. memb Space x))"
definition digits :: "string \<Rightarrow> bool" where
  "digits w = (w \<noteq> [] \<and> (\<forall>x\<in>set w. memb Digit x))"
definition free_of :: "char \<Rightarrow> string \<Rightarrow> bool" where
  "free_of q w = (\<forall>x\<in>set w. memb (Not q) x)"


type_synonym blanks = string

definition flat_body ::
  "blanks \<Rightarrow> string \<Rightarrow> blanks \<Rightarrow> string \<Rightarrow> blanks \<Rightarrow> string \<Rightarrow>
   blanks \<Rightarrow> string \<Rightarrow> blanks \<Rightarrow> blanks \<Rightarrow> string \<Rightarrow> blanks \<Rightarrow> string" where
  "flat_body w1 e w2 cf w3 dp w4 d w5 w6 du w7 =
     ''{'' @ [nl] @
     w1 @ ''extractorId: '' @ [sq] @ e @ [sq] @ '','' @ [nl] @
     w2 @ ''confidence: '' @ cf @ '','' @ [nl] @
     w3 @ ''dataPoints: '' @ dp @ '','' @ [nl] @
     w4 @ ''data: '' @ d @ '','' @ [nl] @
     w5 @ ''timestamp: Date.now(),'' @ [nl] @
     w6 @ ''duration: '' @ du @ '','' @ [nl] @
     w7 @ ''}''"


text \<open>The fixed indentation of fix-synthesis-tests.py: ten and twelve blanks.\<close>

definition sp10 :: string where "sp10 = ''          ''"
definition sp12 :: string where "sp12 = ''            ''"

text \<open>A flat block with the fields of the example and a confidence to choose.\<close>

definition mp_block :: "string \<Rightarrow> string" where
  "mp_block cf = ''      '' @ flat_body ''        '' ''demographics'' ''        '' cf ''        ''
     ''3'' ''        '' ''{foo: 1}'' ''        '' ''        '' ''120'' ''      '' @
     '' as ExtractionResult''"

definition syn_block :: "string \<Rightarrow> string" where
  "syn_block cf = sp10 @ flat_body sp12 ''demographics'' sp12 cf sp12 ''3'' sp12 ''{foo: 1}''
     sp12 sp12 ''120'' sp10"




text \<open>
  A flat block with confidence \<^verbatim>\<open>1\<close>, and a block of the kind the second rule reads that
  holds it in its list of insights; the text fix-megaprompt-tests.py makes of the latter.
\<close>

definition c8_inner :: string where
  "c8_inner = flat_body '' '' ''x'' '' '' ''1'' '' '' ''3'' '' '' ''{foo: 1}'' '' '' '' '' ''7'' '' ''"

definition c8_outer :: string where
  "c8_outer = '' '' @ flat_body '' '' ''demographics'' '' '' ''0.85'' '' '' ''3'' '' '' ''{}''
     ('' metadata: { insights: ['' @ c8_inner @ ''] },'' @ [nl] @ '' '') '' '' ''120'' '' '' @
     '' as ExtractionResult''"

definition c8_outer_rewritten :: string where
  "c8_outer_rewritten = concat
     ['' {'', [nl],
      ''   success: true,'', [nl],
      ''   data: {},'', [nl],
      ''   confidence: {'', [nl],
      ''     overall: 0.85,'', [nl],
      ''     dataQuality: 0.85,'', [nl],
      ''     sourceCount: 3,'', [nl],
      ''   },'', [nl],
      ''   metadata: {'', [nl],
      ''     extractorId: '', [sq], ''demographics'', [sq], '','', [nl],
      ''     taskType: '', [sq], ''customer_profile'', [sq], '' as any,'', [nl],
      ''     model: '', [sq], ''HAIKU'', [sq], '' as any,'', [nl],
      ''     fromCache: false,'', [nl],
      ''     timing: { total: 120 },'', [nl],
      ''     timestamp: Date.now(),'', [nl],
      ''   },'', [nl],
      '' } as any'']"










section \<open>The language of a pattern\<close>

text \<open>
  What a pattern means, apart from the engine: the set of texts it matches in full.
  An occurrence of the pattern in a text is a part of the text that is in this set.
\<close>

fun lang :: "re \<Rightarrow> string set" where
  "lang (Lit l) = {l}"
| "lang (Plus k) = {v. v \<noteq> [] \<and> (\<forall>x\<in>set v. memb k x)}"
| "lang (Star k) = {v. \<forall>x\<in>set v. memb k x}"
| "lang (Opt r) = insert [] (lang r)"
| "lang (Grp n r) = lang r"
| "lang (Seq a b) = {u @ v | u v. u \<in> lang a \<and> v \<in> lang b}"

text \<open>A character that every text of the language contains (a sufficient test).\<close>

fun must_have :: "re \<Rightarrow> char \<Rightarrow> bool" where
  "must_have (Lit l) x = (x \<in> set l)"
| "must_have (Plus k) x = False"
| "must_have (Star k) x = False"
| "must_have (Opt r) x = False"
| "must_have (Grp n r) x = must_have r x"
| "must_have (Seq a b) x = (must_have a x \<or> must_have b x)"

text \<open>\<open>has_text t s\<close>: the text \<open>t\<close> occurs in \<open>s\<close>.\<close>

fun has_text :: "string \<Rightarrow> string \<Rightarrow> bool" where
  "has_text t [] = (t = [])"
| "has_text t (x # xs) = (take (length t) (x # xs) = t \<or> has_text t xs)"

section \<open>What the matcher computes\<close>

lemma rests_set: "set (rests k s) = {r. \<exists>v. s = v @ r \<and> (\<forall>x\<in>set v. memb k x)}"
proof (induction s)
  case Nil
  then show ?case by auto
next
  case (Cons x xs)
  show ?case
  proof (intro set_eqI iffI)
    fix r assume "r \<in> set (rests k (x # xs))"
    then consider "r = x # xs" | "memb k x" "r \<in> set (rests k xs)" by (auto split: if_splits)
    then show "r \<in> {r. \<exists>v. x # xs = v @ r \<and> (\<forall>x\<in>set v. memb k x)}"
    proof cases
      case 1
      then show ?thesis by auto
    next
      case 2
      then obtain v where "xs = v @ r" "\<forall>y\<in>set v. memb k y" using Cons.IH by auto
      then have "x # xs = (x # v) @ r \<and> (\<forall>y\<in>set (x # v). memb k y)" using 2 by simp
      then show ?thesis by blast
    qed
  next
    fix r assume "r \<in> {r. \<exists>v. x # xs = v @ r \<and> (\<forall>x\<in>set v. memb k x)}"
    then obtain v where v: "x # xs = v @ r" "\<forall>y\<in>set v. memb k y" by blast
    show "r \<in> set (rests k (x # xs))"
    proof (cases v)
      case Nil
      then show ?thesis using v by auto
    next
      case (Cons y ys)
      then have "xs = ys @ r" "\<forall>z\<in>set ys. memb k z" "memb k x" using v by auto
      then have "r \<in> set (rests k xs)" using Cons.IH by auto
      then show ?thesis using \<open>memb k x\<close> by simp
    qed
  qed
qed

lemma ms_Lit_iff: "(rest, c') \<in> set (ms (Lit l) s c) \<longleftrightarrow> s = l @ rest \<and> c' = c"
proof -
  have "take (length l) s = l \<Longrightarrow> s = l @ drop (length l) s"
    by (metis append_take_drop_id)
  then show ?thesis by (auto split: if_splits)
qed

lemma ms_Star_iff:
  "(rest, c') \<in> set (ms (Star k) s c) \<longleftrightarrow> (\<exists>v. s = v @ rest \<and> (\<forall>x\<in>set v. memb k x)) \<and> c' = c"
  by (auto simp: rests_set)

lemma ms_Plus_iff:
  "(rest, c') \<in> set (ms (Plus k) s c) \<longleftrightarrow>
     (\<exists>v. v \<noteq> [] \<and> s = v @ rest \<and> (\<forall>x\<in>set v. memb k x)) \<and> c' = c"
proof (cases s)
  case Nil
  then show ?thesis by auto
next
  case (Cons x xs)
  show ?thesis
  proof
    assume "(rest, c') \<in> set (ms (Plus k) s c)"
    then have "memb k x" and "rest \<in> set (rests k xs)" and "c' = c"
      using Cons by (auto split: if_splits)
    then obtain v where "xs = v @ rest" "\<forall>y\<in>set v. memb k y" by (auto simp: rests_set)
    then have "x # v \<noteq> [] \<and> s = (x # v) @ rest \<and> (\<forall>y\<in>set (x # v). memb k y)"
      using Cons \<open>memb k x\<close> by simp
    then show "(\<exists>v. v \<noteq> [] \<and> s = v @ rest \<and> (\<forall>x\<in>set v. memb k x)) \<and> c' = c"
      using \<open>c' = c\<close> by blast
  next
    assume "(\<exists>v. v \<noteq> [] \<and> s = v @ rest \<and> (\<forall>x\<in>set v. memb k x)) \<and> c' = c"
    then obtain v where v: "v \<noteq> []" "s = v @ rest" "\<forall>y\<in>set v. memb k y" and c: "c' = c" by blast
    then obtain y ys where "v = y # ys" by (cases v) auto
    then have "x = y" "xs = ys @ rest" "memb k x" "\<forall>z\<in>set ys. memb k z" using v Cons by auto
    then have "rest \<in> set (rests k xs)" by (auto simp: rests_set)
    then show "(rest, c') \<in> set (ms (Plus k) s c)" using Cons \<open>memb k x\<close> c by simp
  qed
qed

lemma ms_Opt_iff:
  "(rest, c') \<in> set (ms (Opt r) s c) \<longleftrightarrow> (rest, c') \<in> set (ms r s c) \<or> (rest = s \<and> c' = c)"
  by auto

lemma ms_Grp_iff:
  "(rest, c') \<in> set (ms (Grp n r) s c) \<longleftrightarrow>
     (\<exists>c''. (rest, c'') \<in> set (ms r s c) \<and> c' = (n, take (length s - length rest) s) # c'')"
  by auto

lemma ms_Seq_iff:
  "(rest, c') \<in> set (ms (Seq a b) s c) \<longleftrightarrow>
     (\<exists>mid cm. (mid, cm) \<in> set (ms a s c) \<and> (rest, c') \<in> set (ms b mid cm))"
  by auto


lemma ms_sound: "(rest, c') \<in> set (ms r s c) \<Longrightarrow> \<exists>v\<in>lang r. s = v @ rest"
proof (induction r arbitrary: s c rest c')
  case (Seq a b)
  from Seq.prems obtain mid cm where 1: "(mid, cm) \<in> set (ms a s c)"
    and 2: "(rest, c') \<in> set (ms b mid cm)" unfolding ms_Seq_iff by blast
  from Seq.IH(1)[OF 1] obtain u where u: "u \<in> lang a" "s = u @ mid" by blast
  from Seq.IH(2)[OF 2] obtain v where v: "v \<in> lang b" "mid = v @ rest" by blast
  have "u @ v \<in> lang (Seq a b)" using u v by auto
  moreover have "s = (u @ v) @ rest" using u v by simp
  ultimately show ?case by blast
next
  case (Lit l)
  then show ?case unfolding ms_Lit_iff by simp
next
  case (Plus k)
  then show ?case unfolding ms_Plus_iff by auto
next
  case (Star k)
  then show ?case unfolding ms_Star_iff by auto
next
  case (Opt r)
  then show ?case unfolding ms_Opt_iff by auto
next
  case (Grp n r)
  then show ?case unfolding ms_Grp_iff by auto
qed

lemma ms_complete: "v \<in> lang r \<Longrightarrow> \<exists>c'. (rest, c') \<in> set (ms r (v @ rest) c)"
proof (induction r arbitrary: v c rest)
  case (Seq a b)
  then obtain u w where uw: "v = u @ w" "u \<in> lang a" "w \<in> lang b" by auto
  from Seq.IH(1)[OF uw(2)] obtain cm where 1: "(w @ rest, cm) \<in> set (ms a (u @ w @ rest) c)"
    by blast
  from Seq.IH(2)[OF uw(3)] obtain c' where 2: "(rest, c') \<in> set (ms b (w @ rest) cm)" by blast
  have "(rest, c') \<in> set (ms (Seq a b) (v @ rest) c)"
    unfolding ms_Seq_iff using 1 2 uw(1) by auto
  then show ?case by blast
next
  case (Lit l)
  then show ?case unfolding ms_Lit_iff by simp
next
  case (Plus k)
  then show ?case unfolding ms_Plus_iff by auto
next
  case (Star k)
  then show ?case unfolding ms_Star_iff by auto
next
  case (Opt r)
  then show ?case unfolding ms_Opt_iff by (cases "v = []") auto
next
  case (Grp n r)
  then show ?case unfolding ms_Grp_iff by auto
qed

lemma pieces_source: "concat (map source (pieces r must s)) = s"
proof (induction r must s rule: pieces.induct)
  case (1 r must s)
  show ?case
  proof (cases "match_here r must s")
    case None
    then show ?thesis using 1(1) by (subst pieces.simps) (auto split: list.splits)
  next
    case (Some m)
    obtain rest c where m: "m = (rest, c)" by (cases m)
    from Some m have "(rest, c) \<in> set (ms r s [])" using match_here_set by blast
    then obtain v where v: "s = v @ rest" using ms_suffix by blast
    have "concat (map source (pieces r (length rest = length s) rest)) = rest"
      using 1(2)[OF Some m[symmetric]] .
    then show ?thesis using Some m v by (subst pieces.simps) simp
  qed
qed

lemma pieces_Hit:
  "Hit m c \<in> set (pieces r must s) \<Longrightarrow>
     \<exists>u rest. s = u @ m @ rest \<and> (rest, c) \<in> set (ms r (m @ rest) [])"
proof (induction r must s rule: pieces.induct)
  case (1 r must s)
  show ?case
  proof (cases "match_here r must s")
    case None
    show ?thesis
    proof (cases s)
      case Nil
      then show ?thesis using None 1(3) by (subst (asm) pieces.simps) simp
    next
      case (Cons x xs)
      then have "Hit m c \<in> set (pieces r False xs)"
        using None 1(3) by (subst (asm) pieces.simps) simp
      from 1(1)[OF None Cons this] obtain u rest where
        "xs = u @ m @ rest" "(rest, c) \<in> set (ms r (m @ rest) [])" by blast
      then have "s = (x # u) @ m @ rest \<and> (rest, c) \<in> set (ms r (m @ rest) [])"
        using Cons by simp
      then show ?thesis by blast
    qed
  next
    case (Some p)
    obtain rest0 c0 where p: "p = (rest0, c0)" by (cases p)
    from Some p have in0: "(rest0, c0) \<in> set (ms r s [])" using match_here_set by blast
    then obtain v where v: "s = v @ rest0" using ms_suffix by blast
    from 1(3) Some p have "Hit m c = Hit (take (length s - length rest0) s) c0
        \<or> Hit m c \<in> set (pieces r (length rest0 = length s) rest0)"
      by (subst (asm) pieces.simps) simp
    then show ?thesis
    proof
      assume "Hit m c = Hit (take (length s - length rest0) s) c0"
      then have "m = v" "c = c0" using v by auto
      then have "s = [] @ m @ rest0 \<and> (rest0, c) \<in> set (ms r (m @ rest0) [])"
        using v in0 by simp
      then show ?thesis by blast
    next
      assume "Hit m c \<in> set (pieces r (length rest0 = length s) rest0)"
      from 1(2)[OF Some p[symmetric] this] obtain u rest where
        "rest0 = u @ m @ rest" "(rest, c) \<in> set (ms r (m @ rest) [])" by blast
      then have "s = (v @ u) @ m @ rest \<and> (rest, c) \<in> set (ms r (m @ rest) [])"
        using v by simp
      then show ?thesis by blast
    qed
  qed
qed

lemma pieces_no_match:
  "(\<And>u v w. s = u @ v @ w \<Longrightarrow> v \<notin> lang r) \<Longrightarrow> pieces r must s = map Keep s"
proof (induction s arbitrary: must)
  case Nil
  have "ms r [] [] = []"
  proof (rule ccontr)
    assume "ms r [] [] \<noteq> []"
    then obtain rest c where "(rest, c) \<in> set (ms r [] [])" by (cases "ms r [] []") auto
    then obtain v where "v \<in> lang r" "[] = v @ rest" using ms_sound by blast
    then show False using Nil[of "[]" v rest] by simp
  qed
  then show ?case by (subst pieces.simps) (simp add: match_here_def)
next
  case (Cons x xs)
  have "ms r (x # xs) [] = []"
  proof (rule ccontr)
    assume "ms r (x # xs) [] \<noteq> []"
    then obtain rest c where "(rest, c) \<in> set (ms r (x # xs) [])"
      by (cases "ms r (x # xs) []") auto
    then obtain v where "v \<in> lang r" "x # xs = v @ rest" using ms_sound by blast
    then show False using Cons.prems[of "[]" v rest] by simp
  qed
  then have n: "match_here r must (x # xs) = None" by (simp add: match_here_def)
  have "pieces r False xs = map Keep xs"
  proof (rule Cons.IH)
    fix u v w assume "xs = u @ v @ w"
    then have "x # xs = (x # u) @ v @ w" by simp
    then show "v \<notin> lang r" using Cons.prems by blast
  qed
  then show ?case using n by (subst pieces.simps) simp
qed

lemma must_have_lang: "must_have r x \<Longrightarrow> v \<in> lang r \<Longrightarrow> x \<in> set v"
  by (induction r arbitrary: v) auto

lemma re_sub_no_match:
  assumes "\<And>u v w. s = u @ v @ w \<Longrightarrow> v \<notin> lang r"
  shows "re_sub r f s = s"
proof -
  have "pieces r False s = map Keep s" using assms by (rule pieces_no_match)
  then have "re_sub r f s = concat (map (\<lambda>x. [x]) s)" by (simp add: re_sub_def comp_def)
  then show ?thesis by simp
qed

lemma re_sub_absent:
  assumes "must_have r x" and "x \<notin> set s"
  shows "re_sub r f s = s"
proof (rule re_sub_no_match)
  fix u v w assume "s = u @ v @ w"
  then have "x \<notin> set v" using assms(2) by auto
  then show "v \<notin> lang r" using must_have_lang[OF assms(1)] by blast
qed

lemmas run_defs = ms_code seqs_code pieces.simps match_here_def re_sub_def group_def

lemma mp_has_nl: "must_have mp_pattern nl" by (simp add: mp_pattern_def mp_body_def)
lemma mp2_has_br: "must_have mp_pattern2 (CHR ''['')" by (simp add: mp_pattern2_def mp_body2_def)
lemma mp2_has_nl: "must_have mp_pattern2 nl" by (simp add: mp_pattern2_def mp_body2_def)
lemma syn_has_nl: "must_have syn_pattern nl" by (simp add: syn_pattern_def)


section \<open>The shape of a match\<close>

declare ms.simps [simp del]

lemma take_group [simp]: "take (length (a @ b) - length b) (a @ b) = a"
  by simp

lemma seq_Lit:
  "(rest, c') \<in> set (ms (Seq (Lit l) b) s c) \<longleftrightarrow> (\<exists>t. s = l @ t \<and> (rest, c') \<in> set (ms b t c))"
  unfolding ms_Seq_iff ms_Lit_iff by auto

lemma seq_Plus:
  "(rest, c') \<in> set (ms (Seq (Plus k) b) s c) \<longleftrightarrow>
     (\<exists>v t. s = v @ t \<and> v \<in> lang (Plus k) \<and> (rest, c') \<in> set (ms b t c))"
  unfolding ms_Seq_iff ms_Plus_iff by auto

lemma seq_Grp:
  "(rest, c') \<in> set (ms (Seq (Grp n a) b) s c) \<longleftrightarrow>
     (\<exists>v t c''. s = v @ t \<and> (t, c'') \<in> set (ms a (v @ t) c) \<and> (rest, c') \<in> set (ms b t ((n, v) # c'')))"
proof
  assume "(rest, c') \<in> set (ms (Seq (Grp n a) b) s c)"
  then obtain t c'' where 1: "(t, c'') \<in> set (ms a s c)"
    and 2: "(rest, c') \<in> set (ms b t ((n, take (length s - length t) s) # c''))"
    unfolding ms_Seq_iff ms_Grp_iff by auto
  from ms_suffix[OF 1] obtain v where v: "s = v @ t" by blast
  then have "take (length s - length t) s = v" by simp
  then show "\<exists>v t c''. s = v @ t \<and> (t, c'') \<in> set (ms a (v @ t) c) \<and> (rest, c') \<in> set (ms b t ((n, v) # c''))"
    using 1 2 v by auto
next
  assume "\<exists>v t c''. s = v @ t \<and> (t, c'') \<in> set (ms a (v @ t) c) \<and> (rest, c') \<in> set (ms b t ((n, v) # c''))"
  then obtain v t c'' where "s = v @ t" "(t, c'') \<in> set (ms a (v @ t) c)" "(rest, c') \<in> set (ms b t ((n, v) # c''))"
    by blast
  then show "(rest, c') \<in> set (ms (Seq (Grp n a) b) s c)"
    unfolding ms_Seq_iff ms_Grp_iff by (intro exI[of _ t] exI[of _ "(n, v) # c''"]) auto
qed


lemma seq_Grp_Plus:
  "(rest, c') \<in> set (ms (Seq (Grp n (Plus k)) b) s c) \<longleftrightarrow>
     (\<exists>u t. s = u @ t \<and> u \<in> lang (Plus k) \<and>
        (rest, c') \<in> set (ms b t ((n, u) # c)))"
proof -
  have key: "(t, c'') \<in> set (ms (Plus k) (v @ t) c) \<longleftrightarrow>
      (\<exists>u. v = u \<and> u \<in> lang (Plus k)) \<and> c'' = c" for v t c''
  proof -
    have "(t, c'') \<in> set (ms (Plus k) (v @ t) c) \<longleftrightarrow>
       (\<exists>u. v @ t = (u) @ t \<and> u \<in> lang (Plus k)) \<and> c'' = c"
      unfolding ms_Plus_iff by auto
    then show ?thesis by simp
  qed
  show ?thesis
  proof
    assume "(rest, c') \<in> set (ms (Seq (Grp n (Plus k)) b) s c)"
    then obtain v t c'' where 1: "s = v @ t" "(t, c'') \<in> set (ms (Plus k) (v @ t) c)"
      "(rest, c') \<in> set (ms b t ((n, v) # c''))" unfolding seq_Grp by blast
    from 1(2) obtain u where 2: "v = u" "u \<in> lang (Plus k)" "c'' = c"
      unfolding key by blast
    show "\<exists>u t. s = u @ t \<and> u \<in> lang (Plus k) \<and>
        (rest, c') \<in> set (ms b t ((n, u) # c))"
      using 1 2 by (intro exI[of _ u] exI[of _ t]) simp
  next
    assume "\<exists>u t. s = u @ t \<and> u \<in> lang (Plus k) \<and>
        (rest, c') \<in> set (ms b t ((n, u) # c))"
    then obtain u t where 3: "s = u @ t" "u \<in> lang (Plus k)"
      "(rest, c') \<in> set (ms b t ((n, u) # c))" by blast
    have "(t, c) \<in> set (ms (Plus k) ((u) @ t) c)" unfolding key using 3(2) by blast
    then show "(rest, c') \<in> set (ms (Seq (Grp n (Plus k)) b) s c)"
      unfolding seq_Grp using 3
      by (intro exI[of _ "u"] exI[of _ t] exI[of _ c]) simp
  qed
qed

lemma seq_Grp_Lit_Plus:
  "(rest, c') \<in> set (ms (Seq (Grp n (Seq (Lit l) (Plus k))) b) s c) \<longleftrightarrow>
     (\<exists>u t. s = l @ u @ t \<and> u \<in> lang (Plus k) \<and>
        (rest, c') \<in> set (ms b t ((n, l @ u) # c)))"
proof -
  have key: "(t, c'') \<in> set (ms (Seq (Lit l) (Plus k)) (v @ t) c) \<longleftrightarrow>
      (\<exists>u. v = l @ u \<and> u \<in> lang (Plus k)) \<and> c'' = c" for v t c''
  proof -
    have "(t, c'') \<in> set (ms (Seq (Lit l) (Plus k)) (v @ t) c) \<longleftrightarrow>
       (\<exists>u. v @ t = (l @ u) @ t \<and> u \<in> lang (Plus k)) \<and> c'' = c"
      unfolding seq_Lit ms_Plus_iff by auto
    then show ?thesis by simp
  qed
  show ?thesis
  proof
    assume "(rest, c') \<in> set (ms (Seq (Grp n (Seq (Lit l) (Plus k))) b) s c)"
    then obtain v t c'' where 1: "s = v @ t" "(t, c'') \<in> set (ms (Seq (Lit l) (Plus k)) (v @ t) c)"
      "(rest, c') \<in> set (ms b t ((n, v) # c''))" unfolding seq_Grp by blast
    from 1(2) obtain u where 2: "v = l @ u" "u \<in> lang (Plus k)" "c'' = c"
      unfolding key by blast
    show "\<exists>u t. s = l @ u @ t \<and> u \<in> lang (Plus k) \<and>
        (rest, c') \<in> set (ms b t ((n, l @ u) # c))"
      using 1 2 by (intro exI[of _ u] exI[of _ t]) simp
  next
    assume "\<exists>u t. s = l @ u @ t \<and> u \<in> lang (Plus k) \<and>
        (rest, c') \<in> set (ms b t ((n, l @ u) # c))"
    then obtain u t where 3: "s = l @ u @ t" "u \<in> lang (Plus k)"
      "(rest, c') \<in> set (ms b t ((n, l @ u) # c))" by blast
    have "(t, c) \<in> set (ms (Seq (Lit l) (Plus k)) ((l @ u) @ t) c)" unfolding key using 3(2) by blast
    then show "(rest, c') \<in> set (ms (Seq (Grp n (Seq (Lit l) (Plus k))) b) s c)"
      unfolding seq_Grp using 3
      by (intro exI[of _ "l @ u"] exI[of _ t] exI[of _ c]) simp
  qed
qed

lemma seq_Grp_Lit_Plus_Lit:
  "(rest, c') \<in> set (ms (Seq (Grp n (Seq (Lit l) (Seq (Plus k) (Lit r)))) b) s c) \<longleftrightarrow>
     (\<exists>u t. s = l @ u @ r @ t \<and> u \<in> lang (Plus k) \<and>
        (rest, c') \<in> set (ms b t ((n, l @ u @ r) # c)))"
proof -
  have key: "(t, c'') \<in> set (ms (Seq (Lit l) (Seq (Plus k) (Lit r))) (v @ t) c) \<longleftrightarrow>
      (\<exists>u. v = l @ u @ r \<and> u \<in> lang (Plus k)) \<and> c'' = c" for v t c''
  proof -
    have "(t, c'') \<in> set (ms (Seq (Lit l) (Seq (Plus k) (Lit r))) (v @ t) c) \<longleftrightarrow>
       (\<exists>u. v @ t = (l @ u @ r) @ t \<and> u \<in> lang (Plus k)) \<and> c'' = c"
      unfolding seq_Lit seq_Plus ms_Lit_iff by auto
    then show ?thesis by simp
  qed
  show ?thesis
  proof
    assume "(rest, c') \<in> set (ms (Seq (Grp n (Seq (Lit l) (Seq (Plus k) (Lit r)))) b) s c)"
    then obtain v t c'' where 1: "s = v @ t" "(t, c'') \<in> set (ms (Seq (Lit l) (Seq (Plus k) (Lit r))) (v @ t) c)"
      "(rest, c') \<in> set (ms b t ((n, v) # c''))" unfolding seq_Grp by blast
    from 1(2) obtain u where 2: "v = l @ u @ r" "u \<in> lang (Plus k)" "c'' = c"
      unfolding key by blast
    show "\<exists>u t. s = l @ u @ r @ t \<and> u \<in> lang (Plus k) \<and>
        (rest, c') \<in> set (ms b t ((n, l @ u @ r) # c))"
      using 1 2 by (intro exI[of _ u] exI[of _ t]) simp
  next
    assume "\<exists>u t. s = l @ u @ r @ t \<and> u \<in> lang (Plus k) \<and>
        (rest, c') \<in> set (ms b t ((n, l @ u @ r) # c))"
    then obtain u t where 3: "s = l @ u @ r @ t" "u \<in> lang (Plus k)"
      "(rest, c') \<in> set (ms b t ((n, l @ u @ r) # c))" by blast
    have "(t, c) \<in> set (ms (Seq (Lit l) (Seq (Plus k) (Lit r))) ((l @ u @ r) @ t) c)" unfolding key using 3(2) by blast
    then show "(rest, c') \<in> set (ms (Seq (Grp n (Seq (Lit l) (Seq (Plus k) (Lit r)))) b) s c)"
      unfolding seq_Grp using 3
      by (intro exI[of _ "l @ u @ r"] exI[of _ t] exI[of _ c]) simp
  qed
qed

lemma seq_Grp_Lit_Star_Lit:
  "(rest, c') \<in> set (ms (Seq (Grp n (Seq (Lit l) (Seq (Star k) (Lit r)))) b) s c) \<longleftrightarrow>
     (\<exists>u t. s = l @ u @ r @ t \<and> u \<in> lang (Star k) \<and>
        (rest, c') \<in> set (ms b t ((n, l @ u @ r) # c)))"
proof -
  have key: "(t, c'') \<in> set (ms (Seq (Lit l) (Seq (Star k) (Lit r))) (v @ t) c) \<longleftrightarrow>
      (\<exists>u. v = l @ u @ r \<and> u \<in> lang (Star k)) \<and> c'' = c" for v t c''
  proof -
    have "(t, c'') \<in> set (ms (Seq (Lit l) (Seq (Star k) (Lit r))) (v @ t) c) \<longleftrightarrow>
       (\<exists>u. v @ t = (l @ u @ r) @ t \<and> u \<in> lang (Star k)) \<and> c'' = c"
      unfolding seq_Lit ms_Seq_iff ms_Star_iff ms_Lit_iff by auto
    then show ?thesis by simp
  qed
  show ?thesis
  proof
    assume "(rest, c') \<in> set (ms (Seq (Grp n (Seq (Lit l) (Seq (Star k) (Lit r)))) b) s c)"
    then obtain v t c'' where 1: "s = v @ t" "(t, c'') \<in> set (ms (Seq (Lit l) (Seq (Star k) (Lit r))) (v @ t) c)"
      "(rest, c') \<in> set (ms b t ((n, v) # c''))" unfolding seq_Grp by blast
    from 1(2) obtain u where 2: "v = l @ u @ r" "u \<in> lang (Star k)" "c'' = c"
      unfolding key by blast
    show "\<exists>u t. s = l @ u @ r @ t \<and> u \<in> lang (Star k) \<and>
        (rest, c') \<in> set (ms b t ((n, l @ u @ r) # c))"
      using 1 2 by (intro exI[of _ u] exI[of _ t]) simp
  next
    assume "\<exists>u t. s = l @ u @ r @ t \<and> u \<in> lang (Star k) \<and>
        (rest, c') \<in> set (ms b t ((n, l @ u @ r) # c))"
    then obtain u t where 3: "s = l @ u @ r @ t" "u \<in> lang (Star k)"
      "(rest, c') \<in> set (ms b t ((n, l @ u @ r) # c))" by blast
    have "(t, c) \<in> set (ms (Seq (Lit l) (Seq (Star k) (Lit r))) ((l @ u @ r) @ t) c)" unfolding key using 3(2) by blast
    then show "(rest, c') \<in> set (ms (Seq (Grp n (Seq (Lit l) (Seq (Star k) (Lit r)))) b) s c)"
      unfolding seq_Grp using 3
      by (intro exI[of _ "l @ u @ r"] exI[of _ t] exI[of _ c]) simp
  qed
qed

lemmas seq_iffs = seq_Lit seq_Plus seq_Grp_Plus seq_Grp_Lit_Plus seq_Grp_Lit_Plus_Lit
  seq_Grp_Lit_Star_Lit

lemma mp_body_shape:
  "(rest, c') \<in> set (ms mp_body s c) \<Longrightarrow>
   \<exists>w1 e w2 ds w3 dp w4 x w5 w6 du w7.
     s = flat_body w1 e w2 (''0.'' @ ds) w3 dp w4 (''{'' @ x @ ''}'') w5 w6 du w7 @ rest \<and>
     c' = (7, du) # (6, ''{'' @ x @ ''}'') # (5, dp) # (4, ''0.'' @ ds) # (3, e) # c \<and>
     spaces w1 \<and> spaces w2 \<and> spaces w3 \<and> spaces w4 \<and> spaces w5 \<and>
     spaces w6 \<and> spaces w7 \<and> e \<noteq> [] \<and> free_of sq e \<and> digits ds \<and> digits dp \<and>
     x \<noteq> [] \<and> free_of (CHR ''}'') x \<and> digits du"
  apply (simp only: mp_body_def cat.simps seq_iffs ms_Lit_iff)
  apply (elim exE conjE)
  apply hypsubst
  apply (intro exI conjI)
  apply (simp only: flat_body_def append_assoc append.simps, rule refl)
  apply (simp_all add: spaces_def digits_def free_of_def)
  done


lemma mp_body2_shape:
  "(rest, c') \<in> set (ms mp_body2 s c) \<Longrightarrow>
   \<exists>w1 e w2 ds w3 dp w4 w5 y w6 w7 du w8.
     s = flat_body w1 e w2 (''0.'' @ ds) w3 dp w4 ''{}''
           (w5 @ ''metadata: { insights: ['' @ y @ ''] },'' @ [nl] @ w6) w7 du w8 @ rest \<and>
     c' = (6, du) # (5, dp) # (4, ''0.'' @ ds) # (3, e) # c \<and>
     spaces w1 \<and> spaces w2 \<and> spaces w3 \<and> spaces w4 \<and> spaces w5 \<and>
     spaces w6 \<and> spaces w7 \<and> spaces w8 \<and> e \<noteq> [] \<and> free_of sq e \<and> digits ds \<and>
     digits dp \<and> y \<noteq> [] \<and> free_of (CHR '']'') y \<and> digits du"
  apply (simp only: mp_body2_def cat.simps seq_iffs ms_Lit_iff)
  apply (elim exE conjE)
  apply hypsubst
  apply (intro exI conjI)
  apply (simp only: flat_body_def append_assoc append.simps, rule refl)
  apply (simp_all add: spaces_def digits_def free_of_def)
  done

lemma mp_pattern_shape:
  assumes "(rest, c) \<in> set (ms mp_pattern s [])"
  shows "\<exists>w0 w1 e w2 ds w3 dp w4 x w5 w6 du w7.
     s = w0 @ flat_body w1 e w2 (''0.'' @ ds) w3 dp w4 (''{'' @ x @ ''}'') w5 w6 du w7
           @ '' as ExtractionResult'' @ rest \<and>
     c = [(2, flat_body w1 e w2 (''0.'' @ ds) w3 dp w4 (''{'' @ x @ ''}'') w5 w6 du w7),
          (7, du), (6, ''{'' @ x @ ''}''), (5, dp), (4, ''0.'' @ ds), (3, e), (1, w0)] \<and>
     spaces w0 \<and> spaces w1 \<and> spaces w2 \<and> spaces w3 \<and> spaces w4 \<and> spaces w5 \<and>
     spaces w6 \<and> spaces w7 \<and> e \<noteq> [] \<and> free_of sq e \<and> digits ds \<and> digits dp \<and>
     x \<noteq> [] \<and> free_of (CHR ''}'') x \<and> digits du"
proof -
  from assms obtain w0 t where 1: "s = w0 @ t" "w0 \<in> lang (Plus Space)"
    "(rest, c) \<in> set (ms (Seq (Grp 2 mp_body) (Lit '' as ExtractionResult'')) t [(1, w0)])"
    unfolding mp_pattern_def cat.simps seq_Grp_Plus by blast
  from 1(3) obtain v t' c'' where 2: "t = v @ t'"
    "(t', c'') \<in> set (ms mp_body (v @ t') [(1, w0)])"
    "(rest, c) \<in> set (ms (Lit '' as ExtractionResult'') t' ((2, v) # c''))"
    unfolding seq_Grp by blast
  from mp_body_shape[OF 2(2)] obtain w1 e w2 ds w3 dp w4 x w5 w6 du w7 where 3:
    "v @ t' = flat_body w1 e w2 (''0.'' @ ds) w3 dp w4 (''{'' @ x @ ''}'') w5 w6 du w7 @ t'"
    "c'' = (7, du) # (6, ''{'' @ x @ ''}'') # (5, dp) # (4, ''0.'' @ ds) # (3, e) # [(1, w0)]"
    "spaces w1" "spaces w2" "spaces w3" "spaces w4" "spaces w5" "spaces w6" "spaces w7"
    "e \<noteq> []" "free_of sq e" "digits ds" "digits dp" "x \<noteq> []" "free_of (CHR ''}'') x" "digits du"
    by blast
  from 3(1) have v: "v = flat_body w1 e w2 (''0.'' @ ds) w3 dp w4 (''{'' @ x @ ''}'') w5 w6 du w7"
    by simp
  from 2(3) have 4: "t' = '' as ExtractionResult'' @ rest" "c = (2, v) # c''"
    unfolding ms_Lit_iff by auto
  have w0: "spaces w0" using 1(2) by (simp add: spaces_def)
  have s: "s = w0 @ flat_body w1 e w2 (''0.'' @ ds) w3 dp w4 (''{'' @ x @ ''}'') w5 w6 du w7
           @ '' as ExtractionResult'' @ rest" using 1(1) 2(1) v 4(1) by simp
  have c: "c = [(2, flat_body w1 e w2 (''0.'' @ ds) w3 dp w4 (''{'' @ x @ ''}'') w5 w6 du w7),
          (7, du), (6, ''{'' @ x @ ''}''), (5, dp), (4, ''0.'' @ ds), (3, e), (1, w0)]"
    using 4(2) 3(2) v by simp
  show ?thesis using s c w0 3(3-) by blast
qed

lemma seq_Opt_Grp_Lit:
  "(rest, c') \<in> set (ms (Seq (Opt (Grp n (Lit l))) b) s c) \<longleftrightarrow>
     (\<exists>t. s = l @ t \<and> (rest, c') \<in> set (ms b t ((n, l) # c))) \<or> (rest, c') \<in> set (ms b s c)"
proof -
  have key: "(mid, cm) \<in> set (ms (Opt (Grp n (Lit l))) s c) \<longleftrightarrow>
     (s = l @ mid \<and> cm = (n, l) # c) \<or> (mid = s \<and> cm = c)" for mid cm
    unfolding ms_Opt_iff ms_Grp_iff ms_Lit_iff by auto
  show ?thesis unfolding ms_Seq_iff key by auto
qed

lemma mp_pattern2_shape:
  assumes "(rest, c) \<in> set (ms mp_pattern2 s [])"
  shows "\<exists>w0 w1 e w2 ds w3 dp w4 w5 y w6 w7 du w8.
     s = w0 @ flat_body w1 e w2 (''0.'' @ ds) w3 dp w4 ''{}''
           (w5 @ ''metadata: { insights: ['' @ y @ ''] },'' @ [nl] @ w6) w7 du w8
           @ '' as ExtractionResult'' @ rest \<and>
     c = [(2, flat_body w1 e w2 (''0.'' @ ds) w3 dp w4 ''{}''
           (w5 @ ''metadata: { insights: ['' @ y @ ''] },'' @ [nl] @ w6) w7 du w8),
          (6, du), (5, dp), (4, ''0.'' @ ds), (3, e), (1, w0)] \<and>
     spaces w0 \<and> spaces w1 \<and> spaces w2 \<and> spaces w3 \<and> spaces w4 \<and> spaces w5 \<and>
     spaces w6 \<and> spaces w7 \<and> spaces w8 \<and> e \<noteq> [] \<and> free_of sq e \<and> digits ds \<and>
     digits dp \<and> y \<noteq> [] \<and> free_of (CHR '']'') y \<and> digits du"
proof -
  from assms obtain w0 t where 1: "s = w0 @ t" "w0 \<in> lang (Plus Space)"
    "(rest, c) \<in> set (ms (Seq (Grp 2 mp_body2) (Lit '' as ExtractionResult'')) t [(1, w0)])"
    unfolding mp_pattern2_def cat.simps seq_Grp_Plus by blast
  from 1(3) obtain v t' c'' where 2: "t = v @ t'"
    "(t', c'') \<in> set (ms mp_body2 (v @ t') [(1, w0)])"
    "(rest, c) \<in> set (ms (Lit '' as ExtractionResult'') t' ((2, v) # c''))"
    unfolding seq_Grp by blast
  from mp_body2_shape[OF 2(2)] obtain w1 e w2 ds w3 dp w4 w5 y w6 w7 du w8 where 3:
    "v @ t' = flat_body w1 e w2 (''0.'' @ ds) w3 dp w4 ''{}''
           (w5 @ ''metadata: { insights: ['' @ y @ ''] },'' @ [nl] @ w6) w7 du w8 @ t'"
    "c'' = (6, du) # (5, dp) # (4, ''0.'' @ ds) # (3, e) # [(1, w0)]"
    "spaces w1" "spaces w2" "spaces w3" "spaces w4" "spaces w5" "spaces w6" "spaces w7"
    "spaces w8" "e \<noteq> []" "free_of sq e" "digits ds" "digits dp" "y \<noteq> []"
    "free_of (CHR '']'') y" "digits du"
    by blast
  from 3(1) have v: "v = flat_body w1 e w2 (''0.'' @ ds) w3 dp w4 ''{}''
           (w5 @ ''metadata: { insights: ['' @ y @ ''] },'' @ [nl] @ w6) w7 du w8"
    by simp
  from 2(3) have 4: "t' = '' as ExtractionResult'' @ rest" "c = (2, v) # c''"
    unfolding ms_Lit_iff by auto
  have w0: "spaces w0" using 1(2) by (simp add: spaces_def)
  have s: "s = w0 @ flat_body w1 e w2 (''0.'' @ ds) w3 dp w4 ''{}''
           (w5 @ ''metadata: { insights: ['' @ y @ ''] },'' @ [nl] @ w6) w7 du w8
           @ '' as ExtractionResult'' @ rest" using 1(1) 2(1) v 4(1) by simp
  have c: "c = [(2, flat_body w1 e w2 (''0.'' @ ds) w3 dp w4 ''{}''
           (w5 @ ''metadata: { insights: ['' @ y @ ''] },'' @ [nl] @ w6) w7 du w8),
          (6, du), (5, dp), (4, ''0.'' @ ds), (3, e), (1, w0)]"
    using 4(2) 3(2) v by simp
  show ?thesis using s c w0 3(3-) by blast
qed

lemma syn_pattern_shape:
  "(rest, c') \<in> set (ms syn_pattern s c) \<Longrightarrow>
   \<exists>a e ds dp x du.
     s = sp10 @ flat_body sp12 e sp12 (''0.'' @ ds @ a) sp12 dp sp12 (''{'' @ x @ ''}'')
           sp12 sp12 du sp10 @ rest \<and>
     c' = (6, du) # (5, ''{'' @ x @ ''}'') # (4, dp) # (if a = [] then [] else [(3, a)]) @
          (2, ''0.'' @ ds) # (1, e) # c \<and>
     (a = [] \<or> a = '' as any'') \<and>
     e \<noteq> [] \<and> free_of sq e \<and> digits ds \<and> digits dp \<and> free_of (CHR ''}'') x \<and> digits du"
  apply (simp only: syn_pattern_def cat.simps seq_iffs seq_Opt_Grp_Lit ms_Lit_iff)
  apply (elim exE conjE disjE)
   apply hypsubst
   apply (rule exI[of _ "'' as any''"])
   apply (intro exI conjI)
           apply (simp only: flat_body_def sp10_def sp12_def append_assoc append.simps; (rule refl)?)
          apply (simp_all add: spaces_def digits_def free_of_def)[8]
  apply hypsubst
  apply (rule exI[of _ "[]"])
  apply (intro exI conjI)
          apply (simp only: flat_body_def sp10_def sp12_def append_assoc append.simps; (rule refl)?)
         apply (simp_all add: spaces_def digits_def free_of_def)
  done

lemma has_text_iff: "has_text t s \<longleftrightarrow> (\<exists>u w. s = u @ t @ w)"
proof (induction s)
  case Nil
  then show ?case by auto
next
  case (Cons x xs)
  show ?case
  proof
    assume "has_text t (x # xs)"
    then consider "take (length t) (x # xs) = t" | "has_text t xs" by auto
    then show "\<exists>u w. x # xs = u @ t @ w"
    proof cases
      case 1
      then have "x # xs = [] @ t @ drop (length t) (x # xs)"
        by (metis append_Nil append_take_drop_id)
      then show ?thesis by blast
    next
      case 2
      then obtain u w where "xs = u @ t @ w" using Cons.IH by blast
      then have "x # xs = (x # u) @ t @ w" by simp
      then show ?thesis by blast
    qed
  next
    assume "\<exists>u w. x # xs = u @ t @ w"
    then obtain u w where uw: "x # xs = u @ t @ w" by blast
    show "has_text t (x # xs)"
    proof (cases u)
      case Nil
      then have "take (length t) (x # xs) = t" using uw by (metis append_Nil append_eq_conv_conj)
      then show ?thesis by simp
    next
      case (Cons y ys)
      then have "xs = ys @ t @ w" using uw by simp
      then have "has_text t xs" using Cons.IH by blast
      then show ?thesis by simp
    qed
  qed
qed

lemma has_text_mono: "has_text t v \<Longrightarrow> has_text t (u @ v @ w)"
proof -
  assume "has_text t v"
  then obtain a b where "v = a @ t @ b" unfolding has_text_iff by blast
  then have "u @ v @ w = (u @ a) @ t @ (b @ w)" by simp
  then show ?thesis unfolding has_text_iff by blast
qed

lemma mp_hit:
  assumes "Hit m c \<in> set (pieces mp_pattern must s)"
  shows "\<exists>w0 w1 e w2 ds w3 dp w4 x w5 w6 du w7.
     m = w0 @ flat_body w1 e w2 (''0.'' @ ds) w3 dp w4 (''{'' @ x @ ''}'') w5 w6 du w7
           @ '' as ExtractionResult'' \<and>
     c = [(2, flat_body w1 e w2 (''0.'' @ ds) w3 dp w4 (''{'' @ x @ ''}'') w5 w6 du w7),
          (7, du), (6, ''{'' @ x @ ''}''), (5, dp), (4, ''0.'' @ ds), (3, e), (1, w0)] \<and>
     spaces w0 \<and> spaces w1 \<and> spaces w2 \<and> spaces w3 \<and> spaces w4 \<and> spaces w5 \<and>
     spaces w6 \<and> spaces w7 \<and> e \<noteq> [] \<and> free_of sq e \<and> digits ds \<and> digits dp \<and>
     x \<noteq> [] \<and> free_of (CHR ''}'') x \<and> digits du"
proof -
  from pieces_Hit[OF assms] obtain u rest where
    "(rest, c) \<in> set (ms mp_pattern (m @ rest) [])" by blast
  from mp_pattern_shape[OF this] obtain w0 w1 e w2 ds w3 dp w4 x w5 w6 du w7 where 1:
    "m @ rest = w0 @ flat_body w1 e w2 (''0.'' @ ds) w3 dp w4 (''{'' @ x @ ''}'') w5 w6 du w7
           @ '' as ExtractionResult'' @ rest"
    "c = [(2, flat_body w1 e w2 (''0.'' @ ds) w3 dp w4 (''{'' @ x @ ''}'') w5 w6 du w7),
          (7, du), (6, ''{'' @ x @ ''}''), (5, dp), (4, ''0.'' @ ds), (3, e), (1, w0)]"
    "spaces w0" "spaces w1" "spaces w2" "spaces w3" "spaces w4" "spaces w5"
    "spaces w6" "spaces w7" "e \<noteq> []" "free_of sq e" "digits ds" "digits dp"
    "x \<noteq> []" "free_of (CHR ''}'') x" "digits du" by blast
  from 1(1) have "m @ rest = (w0 @ flat_body w1 e w2 (''0.'' @ ds) w3 dp w4 (''{'' @ x @ ''}'') w5 w6 du w7
           @ '' as ExtractionResult'') @ rest" by simp
  then have "m = w0 @ flat_body w1 e w2 (''0.'' @ ds) w3 dp w4 (''{'' @ x @ ''}'') w5 w6 du w7
           @ '' as ExtractionResult''" by (simp only: append_same_eq)
  then show ?thesis using 1(2-) by blast
qed

lemma mp2_hit:
  assumes "Hit m c \<in> set (pieces mp_pattern2 must s)"
  shows "\<exists>w0 w1 e w2 ds w3 dp w4 w5 y w6 w7 du w8.
     m = w0 @ flat_body w1 e w2 (''0.'' @ ds) w3 dp w4 ''{}''
           (w5 @ ''metadata: { insights: ['' @ y @ ''] },'' @ [nl] @ w6) w7 du w8
           @ '' as ExtractionResult'' \<and>
     c = [(2, flat_body w1 e w2 (''0.'' @ ds) w3 dp w4 ''{}''
           (w5 @ ''metadata: { insights: ['' @ y @ ''] },'' @ [nl] @ w6) w7 du w8),
          (6, du), (5, dp), (4, ''0.'' @ ds), (3, e), (1, w0)] \<and>
     spaces w0 \<and> spaces w1 \<and> spaces w2 \<and> spaces w3 \<and> spaces w4 \<and> spaces w5 \<and>
     spaces w6 \<and> spaces w7 \<and> spaces w8 \<and> e \<noteq> [] \<and> free_of sq e \<and> digits ds \<and>
     digits dp \<and> y \<noteq> [] \<and> free_of (CHR '']'') y \<and> digits du"
proof -
  from pieces_Hit[OF assms] obtain u rest where
    "(rest, c) \<in> set (ms mp_pattern2 (m @ rest) [])" by blast
  from mp_pattern2_shape[OF this] obtain w0 w1 e w2 ds w3 dp w4 w5 y w6 w7 du w8 where 1:
    "m @ rest = w0 @ flat_body w1 e w2 (''0.'' @ ds) w3 dp w4 ''{}''
           (w5 @ ''metadata: { insights: ['' @ y @ ''] },'' @ [nl] @ w6) w7 du w8
           @ '' as ExtractionResult'' @ rest"
    "c = [(2, flat_body w1 e w2 (''0.'' @ ds) w3 dp w4 ''{}''
           (w5 @ ''metadata: { insights: ['' @ y @ ''] },'' @ [nl] @ w6) w7 du w8),
          (6, du), (5, dp), (4, ''0.'' @ ds), (3, e), (1, w0)]"
    "spaces w0" "spaces w1" "spaces w2" "spaces w3" "spaces w4" "spaces w5"
    "spaces w6" "spaces w7" "spaces w8" "e \<noteq> []" "free_of sq e" "digits ds" "digits dp"
    "y \<noteq> []" "free_of (CHR '']'') y" "digits du" by blast
  from 1(1) have "m @ rest = (w0 @ flat_body w1 e w2 (''0.'' @ ds) w3 dp w4 ''{}''
           (w5 @ ''metadata: { insights: ['' @ y @ ''] },'' @ [nl] @ w6) w7 du w8
           @ '' as ExtractionResult'') @ rest" by simp
  then have "m = w0 @ flat_body w1 e w2 (''0.'' @ ds) w3 dp w4 ''{}''
           (w5 @ ''metadata: { insights: ['' @ y @ ''] },'' @ [nl] @ w6) w7 du w8
           @ '' as ExtractionResult''" by (simp only: append_same_eq)
  then show ?thesis using 1(2-) by blast
qed

lemma syn_hit:
  assumes "Hit m c \<in> set (pieces syn_pattern must s)"
  shows "\<exists>a e ds dp x du.
     m = sp10 @ flat_body sp12 e sp12 (''0.'' @ ds @ a) sp12 dp sp12 (''{'' @ x @ ''}'')
           sp12 sp12 du sp10 \<and>
     c = (6, du) # (5, ''{'' @ x @ ''}'') # (4, dp) # (if a = [] then [] else [(3, a)]) @
          [(2, ''0.'' @ ds), (1, e)] \<and>
     (a = [] \<or> a = '' as any'') \<and>
     e \<noteq> [] \<and> free_of sq e \<and> digits ds \<and> digits dp \<and> free_of (CHR ''}'') x \<and> digits du"
proof -
  from pieces_Hit[OF assms] obtain u rest where
    "(rest, c) \<in> set (ms syn_pattern (m @ rest) [])" by blast
  from syn_pattern_shape[OF this] obtain a e ds dp x du where 1:
    "m @ rest = sp10 @ flat_body sp12 e sp12 (''0.'' @ ds @ a) sp12 dp sp12 (''{'' @ x @ ''}'')
           sp12 sp12 du sp10 @ rest"
    "c = (6, du) # (5, ''{'' @ x @ ''}'') # (4, dp) # (if a = [] then [] else [(3, a)]) @
          (2, ''0.'' @ ds) # (1, e) # []"
    "a = [] \<or> a = '' as any''"
    "e \<noteq> []" "free_of sq e" "digits ds" "digits dp" "free_of (CHR ''}'') x" "digits du"
    by blast
  from 1(1) have "m @ rest = (sp10 @ flat_body sp12 e sp12 (''0.'' @ ds @ a) sp12 dp sp12
      (''{'' @ x @ ''}'') sp12 sp12 du sp10) @ rest" by simp
  then have "m = sp10 @ flat_body sp12 e sp12 (''0.'' @ ds @ a) sp12 dp sp12 (''{'' @ x @ ''}'')
           sp12 sp12 du sp10" by (simp only: append_same_eq)
  then show ?thesis using 1(2-) by blast
qed

lemma mp_lang_shape:
  assumes "v \<in> lang mp_pattern"
  shows "\<exists>w0 w1 e w2 ds w3 dp w4 x w5 w6 du w7.
     v = w0 @ flat_body w1 e w2 (''0.'' @ ds) w3 dp w4 (''{'' @ x @ ''}'') w5 w6 du w7
           @ '' as ExtractionResult'' \<and>
     spaces w0 \<and> spaces w1 \<and> spaces w2 \<and> spaces w3 \<and> spaces w4 \<and> spaces w5 \<and>
     spaces w6 \<and> spaces w7 \<and> e \<noteq> [] \<and> free_of sq e \<and> digits ds \<and> digits dp \<and>
     x \<noteq> [] \<and> free_of (CHR ''}'') x \<and> digits du"
proof -
  from ms_complete[OF assms, of "[]" "[]"] obtain c where
    "([], c) \<in> set (ms mp_pattern v [])" by auto
  from mp_pattern_shape[OF this] show ?thesis by (simp only: append_Nil2) blast
qed

lemma mp2_lang_shape:
  assumes "v \<in> lang mp_pattern2"
  shows "\<exists>w0 w1 e w2 ds w3 dp w4 w5 y w6 w7 du w8.
     v = w0 @ flat_body w1 e w2 (''0.'' @ ds) w3 dp w4 ''{}''
           (w5 @ ''metadata: { insights: ['' @ y @ ''] },'' @ [nl] @ w6) w7 du w8
           @ '' as ExtractionResult'' \<and>
     spaces w0 \<and> spaces w1 \<and> spaces w2 \<and> spaces w3 \<and> spaces w4 \<and> spaces w5 \<and>
     spaces w6 \<and> spaces w7 \<and> spaces w8 \<and> e \<noteq> [] \<and> free_of sq e \<and> digits ds \<and>
     digits dp \<and> y \<noteq> [] \<and> free_of (CHR '']'') y \<and> digits du"
proof -
  from ms_complete[OF assms, of "[]" "[]"] obtain c where
    "([], c) \<in> set (ms mp_pattern2 v [])" by auto
  from mp_pattern2_shape[OF this] show ?thesis by (simp only: append_Nil2) blast
qed

lemma syn_lang_shape:
  assumes "v \<in> lang syn_pattern"
  shows "\<exists>a e ds dp x du.
     v = sp10 @ flat_body sp12 e sp12 (''0.'' @ ds @ a) sp12 dp sp12 (''{'' @ x @ ''}'')
           sp12 sp12 du sp10 \<and>
     (a = [] \<or> a = '' as any'') \<and>
     e \<noteq> [] \<and> free_of sq e \<and> digits ds \<and> digits dp \<and> free_of (CHR ''}'') x \<and> digits du"
proof -
  from ms_complete[OF assms, of "[]" "[]"] obtain c where
    "([], c) \<in> set (ms syn_pattern v [])" by auto
  from syn_pattern_shape[OF this] show ?thesis by (simp only: append_Nil2) blast
qed

lemma flat_body_conf:
  "has_text ''confidence: 0.'' (w0 @ flat_body w1 e w2 (''0.'' @ r) w3 dp w4 d w5 w6 du w7 @ sfx)"
proof -
  have "w0 @ flat_body w1 e w2 (''0.'' @ r) w3 dp w4 d w5 w6 du w7 @ sfx =
      (w0 @ ''{'' @ [nl] @ w1 @ ''extractorId: '' @ [sq] @ e @ [sq] @ '','' @ [nl] @ w2) @
      ''confidence: 0.'' @
      (r @ '','' @ [nl] @ w3 @ ''dataPoints: '' @ dp @ '','' @ [nl] @ w4 @ ''data: '' @ d @
        '','' @ [nl] @ w5 @ ''timestamp: Date.now(),'' @ [nl] @ w6 @ ''duration: '' @ du @
        '','' @ [nl] @ w7 @ ''}'' @ sfx)"
    by (simp add: flat_body_def)
  then show ?thesis unfolding has_text_iff by blast
qed

lemma lang_conf:
  assumes "v \<in> lang mp_pattern \<or> v \<in> lang mp_pattern2 \<or> v \<in> lang syn_pattern"
  shows "has_text ''confidence: 0.'' v"
  using assms
proof (elim disjE)
  assume "v \<in> lang mp_pattern"
  from mp_lang_shape[OF this] show ?thesis using flat_body_conf by blast
next
  assume "v \<in> lang mp_pattern2"
  from mp2_lang_shape[OF this] show ?thesis using flat_body_conf by blast
next
  assume "v \<in> lang syn_pattern"
  from syn_lang_shape[OF this] obtain a e ds dp x du where
    "v = sp10 @ flat_body sp12 e sp12 (''0.'' @ ds @ a) sp12 dp sp12 (''{'' @ x @ ''}'')
           sp12 sp12 du sp10" by blast
  then have "v = sp10 @ flat_body sp12 e sp12 (''0.'' @ ds @ a) sp12 dp sp12 (''{'' @ x @ ''}'')
           sp12 sp12 du sp10 @ []" by simp
  then show ?thesis using flat_body_conf by metis
qed

lemma no_conf_unchanged:
  assumes "\<not> has_text ''confidence: 0.'' s"
  shows "mp_rewrite s = s \<and> syn_rewrite s = s"
proof -
  have n: "v \<notin> lang mp_pattern \<and> v \<notin> lang mp_pattern2 \<and> v \<notin> lang syn_pattern"
    if "s = u @ v @ w" for u v w
  proof -
    have "\<not> has_text ''confidence: 0.'' v" using assms that has_text_mono by blast
    then show ?thesis using lang_conf by blast
  qed
  have 1: "re_sub mp_pattern mp_replacement s = s" by (rule re_sub_no_match) (use n in blast)
  have 2: "re_sub mp_pattern2 mp_replacement2 s = s" by (rule re_sub_no_match) (use n in blast)
  have 3: "re_sub syn_pattern syn_replacement s = s" by (rule re_sub_no_match) (use n in blast)
  show ?thesis using 1 2 3 by (simp add: mp_rewrite_def syn_rewrite_def)
qed

lemma run_align:
  assumes "\<forall>x\<in>set a. P x" and "\<forall>x\<in>set a'. P x" and "\<not> P y" and "\<not> P y'"
    and "a @ y # r = a' @ y' # r'"
  shows "a = a' \<and> y = y' \<and> r = r'"
proof -
  have "takeWhile P (a @ y # r) = a" using assms(1,3) by (simp add: takeWhile_append2)
  moreover have "takeWhile P (a' @ y' # r') = a'" using assms(2,4) by (simp add: takeWhile_append2)
  ultimately have "a = a'" using assms(5) by simp
  then show ?thesis using assms(5) by simp
qed

lemma spaces_align:
  assumes "spaces w" and "spaces w'" and "\<not> memb Space y" and "\<not> memb Space y'"
    and "w @ y # r = w' @ y' # r'"
  shows "w = w' \<and> y = y' \<and> r = r'"
  using run_align[of w "memb Space" w' y y' r r'] assms by (simp add: spaces_def)

lemma stop_align:
  assumes "q \<notin> set a" and "q \<notin> set a'" and "a @ q # r = a' @ q # r'"
  shows "a = a' \<and> r = r'"
  using run_align[of a "\<lambda>x. x \<noteq> q" a' q q r r'] assms by auto

text \<open>Two readings of a text as a flat block agree up to the confidence value.\<close>

lemma flat_align_conf:
  assumes eq: "w0 @ flat_body w1 e w2 cf w3 dp w4 d w5 w6 du w7 @ sfx =
               w0' @ flat_body w1' e' w2' cf' w3' dp' w4' d' w5' w6' du' w7' @ sfx'"
    and w: "spaces w0" "spaces w0'" "spaces w1" "spaces w1'" "spaces w2" "spaces w2'"
    and e: "free_of sq e" "free_of sq e'"
    and cf: "CHR '','' \<notin> set cf" "CHR '','' \<notin> set cf'"
  shows "w0 = w0' \<and> w1 = w1' \<and> e = e' \<and> w2 = w2' \<and> cf = cf'"
proof -
  define R where "R = [nl] @ w3 @ ''dataPoints: '' @ dp @ '','' @ [nl] @ w4 @ ''data: '' @ d @
        '','' @ [nl] @ w5 @ ''timestamp: Date.now(),'' @ [nl] @ w6 @ ''duration: '' @ du @
        '','' @ [nl] @ w7 @ ''}'' @ sfx"
  define R' where "R' = [nl] @ w3' @ ''dataPoints: '' @ dp' @ '','' @ [nl] @ w4' @ ''data: '' @ d' @
        '','' @ [nl] @ w5' @ ''timestamp: Date.now(),'' @ [nl] @ w6' @ ''duration: '' @ du' @
        '','' @ [nl] @ w7' @ ''}'' @ sfx'"
  have s0: "w0 @ CHR ''{'' # nl # w1 @ ''extractorId: '' @ sq # e @ sq # CHR '','' # nl # w2 @
             ''confidence: '' @ cf @ CHR '','' # R =
           w0' @ CHR ''{'' # nl # w1' @ ''extractorId: '' @ sq # e' @ sq # CHR '','' # nl # w2' @
             ''confidence: '' @ cf' @ CHR '','' # R'"
    using eq by (simp add: flat_body_def R_def R'_def)
  from spaces_align[OF w(1,2) _ _ s0] have a0: "w0 = w0'"
    and s1: "w1 @ ''extractorId: '' @ sq # e @ sq # CHR '','' # nl # w2 @
             ''confidence: '' @ cf @ CHR '','' # R =
            w1' @ ''extractorId: '' @ sq # e' @ sq # CHR '','' # nl # w2' @
             ''confidence: '' @ cf' @ CHR '','' # R'"
    by simp_all
  from s1 have s1b: "w1 @ CHR ''e'' # (''xtractorId: '' @ sq # e @ sq # CHR '','' # nl # w2 @
             ''confidence: '' @ cf @ CHR '','' # R) =
            w1' @ CHR ''e'' # (''xtractorId: '' @ sq # e' @ sq # CHR '','' # nl # w2' @
             ''confidence: '' @ cf' @ CHR '','' # R')" by simp
  from spaces_align[OF w(3,4) _ _ s1b] have a1: "w1 = w1'"
    and s2: "e @ sq # (CHR '','' # nl # w2 @ ''confidence: '' @ cf @ CHR '','' # R) =
            e' @ sq # (CHR '','' # nl # w2' @ ''confidence: '' @ cf' @ CHR '','' # R')"
    by simp_all
  have "sq \<notin> set e" "sq \<notin> set e'" using e by (auto simp: free_of_def)
  from stop_align[OF this s2] have a2: "e = e'"
    and s3: "w2 @ CHR ''c'' # (''onfidence: '' @ cf @ CHR '','' # R) =
            w2' @ CHR ''c'' # (''onfidence: '' @ cf' @ CHR '','' # R')"
    by simp_all
  from spaces_align[OF w(5,6) _ _ s3] have a3: "w2 = w2'"
    and s4: "cf @ CHR '','' # R = cf' @ CHR '','' # R'"
    by simp_all
  from stop_align[OF cf s4] have a4: "cf = cf'" by simp
  show ?thesis using a0 a1 a2 a3 a4 by simp
qed

lemma spaces_sp: "spaces sp10" "spaces sp12" "spaces ''      ''" "spaces ''        ''"
  by (simp_all add: spaces_def sp10_def sp12_def)

lemma not_digit_comma: "\<not> memb Digit (CHR '','')" by simp

lemma digits_no_comma: "digits ds \<Longrightarrow> CHR '','' \<notin> set ds"
  unfolding digits_def using not_digit_comma by blast

lemma conf_no_comma:
  assumes "digits ds" and "a = [] \<or> a = '' as any''"
  shows "CHR '','' \<notin> set (''0.'' @ ds @ a)"
proof -
  have "CHR '','' \<notin> set a" using assms(2) by auto
  then show ?thesis using digits_no_comma[OF assms(1)] by simp
qed

lemma mp_lang_conf:
  assumes v: "v = w0 @ flat_body w1 e w2 cf w3 dp w4 d w5 w6 du w7 @ sfx"
    and w: "spaces w0" "spaces w1" "spaces w2" and e: "free_of sq e" and cf: "CHR '','' \<notin> set cf"
    and l: "v \<in> lang mp_pattern \<or> v \<in> lang mp_pattern2"
  shows "\<exists>ds. digits ds \<and> cf = ''0.'' @ ds"
  using l
proof
  assume "v \<in> lang mp_pattern"
  from mp_lang_shape[OF this] obtain w0' w1' e' w2' ds w3' dp' w4' x w5' w6' du' w7' where 1:
    "v = w0' @ flat_body w1' e' w2' (''0.'' @ ds) w3' dp' w4' (''{'' @ x @ ''}'') w5' w6' du' w7'
         @ '' as ExtractionResult''"
    "spaces w0'" "spaces w1'" "spaces w2'" "free_of sq e'" "digits ds" by blast
  have c: "CHR '','' \<notin> set (''0.'' @ ds)" using conf_no_comma[OF 1(6), of "[]"] by simp
  have eq: "w0 @ flat_body w1 e w2 cf w3 dp w4 d w5 w6 du w7 @ sfx =
      w0' @ flat_body w1' e' w2' (''0.'' @ ds) w3' dp' w4' (''{'' @ x @ ''}'') w5' w6' du' w7'
         @ '' as ExtractionResult''" by (rule trans[OF v[symmetric] 1(1)])
  from flat_align_conf[OF eq w(1) 1(2) w(2) 1(3) w(3) 1(4) e 1(5) cf c]
  have "cf = ''0.'' @ ds" by (elim conjE)
  then show ?thesis using 1(6) by blast
next
  assume "v \<in> lang mp_pattern2"
  from mp2_lang_shape[OF this] obtain w0' w1' e' w2' ds w3' dp' w4' w5' y w6' w7' du' w8' where 1:
    "v = w0' @ flat_body w1' e' w2' (''0.'' @ ds) w3' dp' w4' ''{}''
         (w5' @ ''metadata: { insights: ['' @ y @ ''] },'' @ [nl] @ w6') w7' du' w8'
         @ '' as ExtractionResult''"
    "spaces w0'" "spaces w1'" "spaces w2'" "free_of sq e'" "digits ds" by blast
  have c: "CHR '','' \<notin> set (''0.'' @ ds)" using conf_no_comma[OF 1(6), of "[]"] by simp
  have eq: "w0 @ flat_body w1 e w2 cf w3 dp w4 d w5 w6 du w7 @ sfx =
      w0' @ flat_body w1' e' w2' (''0.'' @ ds) w3' dp' w4' ''{}''
         (w5' @ ''metadata: { insights: ['' @ y @ ''] },'' @ [nl] @ w6') w7' du' w8'
         @ '' as ExtractionResult''" by (rule trans[OF v[symmetric] 1(1)])
  from flat_align_conf[OF eq w(1) 1(2) w(2) 1(3) w(3) 1(4) e 1(5) cf c]
  have "cf = ''0.'' @ ds" by (elim conjE)
  then show ?thesis using 1(6) by blast
qed

lemma syn_lang_conf:
  assumes v: "v = w0 @ flat_body w1 e w2 cf w3 dp w4 d w5 w6 du w7 @ sfx"
    and w: "spaces w0" "spaces w1" "spaces w2" and e: "free_of sq e" and cf: "CHR '','' \<notin> set cf"
    and l: "v \<in> lang syn_pattern"
  shows "\<exists>ds a. digits ds \<and> (a = [] \<or> a = '' as any'') \<and> cf = ''0.'' @ ds @ a"
proof -
  from syn_lang_shape[OF l] obtain a e' ds dp' x du' where 1:
    "v = sp10 @ flat_body sp12 e' sp12 (''0.'' @ ds @ a) sp12 dp' sp12 (''{'' @ x @ ''}'')
           sp12 sp12 du' sp10"
    "a = [] \<or> a = '' as any''" "free_of sq e'" "digits ds" by blast
  have 2: "v = sp10 @ flat_body sp12 e' sp12 (''0.'' @ ds @ a) sp12 dp' sp12
      (''{'' @ x @ ''}'') sp12 sp12 du' sp10 @ []" unfolding append_Nil2 by (rule 1(1))
  have eq: "w0 @ flat_body w1 e w2 cf w3 dp w4 d w5 w6 du w7 @ sfx =
      sp10 @ flat_body sp12 e' sp12 (''0.'' @ ds @ a) sp12 dp' sp12
      (''{'' @ x @ ''}'') sp12 sp12 du' sp10 @ []" by (rule trans[OF v[symmetric] 2])
  note c = conf_no_comma[OF 1(4) 1(2)]
  from flat_align_conf[OF eq w(1) spaces_sp(1) w(2) spaces_sp(2) w(3) spaces_sp(2) e 1(3) cf c]
  have "cf = ''0.'' @ ds @ a" by (elim conjE)
  then show ?thesis using 1(2,4) by blast
qed

lemma mp_hit_conf:
  assumes "Hit m c \<in> set (pieces mp_pattern must s)"
  shows "\<exists>w0 w1 e w2 ds w3 dp w4 d w5 w6 du w7.
        m = w0 @ flat_body w1 e w2 (''0.'' @ ds) w3 dp w4 d w5 w6 du w7 @ '' as ExtractionResult'' \<and>
        digits ds \<and> group c 4 = ''0.'' @ ds"
proof -
  from mp_hit[OF assms] obtain w0 w1 e w2 ds w3 dp w4 x w5 w6 du w7 where 1:
      "m = w0 @ flat_body w1 e w2 (''0.'' @ ds) w3 dp w4 (''{'' @ x @ ''}'') w5 w6 du w7
           @ '' as ExtractionResult''"
      "c = [(2, flat_body w1 e w2 (''0.'' @ ds) w3 dp w4 (''{'' @ x @ ''}'') w5 w6 du w7),
          (7, du), (6, ''{'' @ x @ ''}''), (5, dp), (4, ''0.'' @ ds), (3, e), (1, w0)]"
      "digits ds" by blast
  have "group c 4 = ''0.'' @ ds" unfolding 1(2) group_def by simp
  with 1(1,3) show ?thesis by blast
qed

lemma mp2_hit_conf:
  assumes "Hit m c \<in> set (pieces mp_pattern2 must s)"
  shows "\<exists>w0 w1 e w2 ds w3 dp w4 d w5 w6 du w7.
        m = w0 @ flat_body w1 e w2 (''0.'' @ ds) w3 dp w4 d w5 w6 du w7 @ '' as ExtractionResult'' \<and>
        digits ds \<and> group c 4 = ''0.'' @ ds"
proof -
  from mp2_hit[OF assms] obtain w0 w1 e w2 ds w3 dp w4 w5 y w6 w7 du w8 where 1:
      "m = w0 @ flat_body w1 e w2 (''0.'' @ ds) w3 dp w4 ''{}''
           (w5 @ ''metadata: { insights: ['' @ y @ ''] },'' @ [nl] @ w6) w7 du w8
           @ '' as ExtractionResult''"
      "c = [(2, flat_body w1 e w2 (''0.'' @ ds) w3 dp w4 ''{}''
           (w5 @ ''metadata: { insights: ['' @ y @ ''] },'' @ [nl] @ w6) w7 du w8),
          (6, du), (5, dp), (4, ''0.'' @ ds), (3, e), (1, w0)]"
      "digits ds" by blast
  have "group c 4 = ''0.'' @ ds" unfolding 1(2) group_def by simp
  with 1(1,3) show ?thesis by blast
qed

lemma syn_hit_conf:
  assumes "Hit m c \<in> set (pieces syn_pattern must s)"
  shows "\<exists>e ds a dp d du.
        m = sp10 @ flat_body sp12 e sp12 (''0.'' @ ds @ a) sp12 dp sp12 d sp12 sp12 du sp10 \<and>
        digits ds \<and> (a = [] \<or> a = '' as any'') \<and> group c 2 = ''0.'' @ ds"
proof -
  from syn_hit[OF assms] obtain a e ds dp x du where 1:
    "m = sp10 @ flat_body sp12 e sp12 (''0.'' @ ds @ a) sp12 dp sp12 (''{'' @ x @ ''}'')
           sp12 sp12 du sp10"
    "c = (6, du) # (5, ''{'' @ x @ ''}'') # (4, dp) # (if a = [] then [] else [(3, a)]) @
          [(2, ''0.'' @ ds), (1, e)]"
    "a = [] \<or> a = '' as any''" "digits ds" by blast
  have "group c 2 = ''0.'' @ ds" unfolding 1(2) group_def by simp
  with 1(1,3,4) show ?thesis by blast
qed

lemma syn_block_hit:
  "\<exists>c. pieces syn_pattern False (syn_block ''0.85'') = [Hit (syn_block ''0.85'') c]"
  by (simp del: ms.simps add: run_defs syn_pattern_def syn_block_def flat_body_def sp10_def sp12_def)

lemma syn_block_no_conf: "\<not> has_text ''confidence: 0.'' (syn_block ''1.0'')"
  by (simp add: syn_block_def flat_body_def sp10_def sp12_def)

lemma mp_block_no_conf: "\<not> has_text ''confidence: 0.'' (mp_block ''1'')"
  by (simp add: mp_block_def flat_body_def)

lemma conf_1_0_other: "\<not> (\<exists>ds a. digits ds \<and> (a = [] \<or> a = '' as any'') \<and> ''1.0'' = ''0.'' @ ds @ a)" by simp
lemma conf_1_other: "\<not> (\<exists>ds. digits ds \<and> ''1'' = ''0.'' @ ds)" by simp

lemma demographics_free: "free_of sq ''demographics''" by (simp add: free_of_def)


















text \<open>What the loop does after a match: it goes on with the rest of the text.\<close>

lemma pieces_tail:
  "pieces r must s = ps @ Hit m c # qs \<Longrightarrow>
     qs = pieces r (m = []) (concat (map source qs))"
proof (induction r must s arbitrary: ps rule: pieces.induct)
  case (1 r must s)
  show ?case
  proof (cases "match_here r must s")
    case None
    show ?thesis
    proof (cases s)
      case Nil
      then show ?thesis using None 1(3) by (subst (asm) pieces.simps) simp
    next
      case (Cons x xs)
      then have e: "Keep x # pieces r False xs = ps @ Hit m c # qs"
        using None 1(3) by (subst (asm) pieces.simps) simp
      then obtain ps' where "ps = Keep x # ps'" by (cases ps) auto
      with e have "pieces r False xs = ps' @ Hit m c # qs" by simp
      from 1(1)[OF None Cons this] show ?thesis .
    qed
  next
    case (Some p)
    obtain rest0 c0 where p: "p = (rest0, c0)" by (cases p)
    from Some p have in0: "(rest0, c0) \<in> set (ms r s [])" using match_here_set by blast
    then obtain v where v: "s = v @ rest0" using ms_suffix by blast
    from 1(3) Some p have e: "Hit v c0 # pieces r (length rest0 = length s) rest0 =
        ps @ Hit m c # qs"
      using v by (subst (asm) pieces.simps) simp
    show ?thesis
    proof (cases ps)
      case Nil
      with e have mv: "m = v" and q: "qs = pieces r (length rest0 = length s) rest0" by simp_all
      have "concat (map source qs) = rest0" unfolding q by (rule pieces_source)
      moreover have "(length rest0 = length s) = (m = [])" using v mv by auto
      ultimately show ?thesis using q by simp
    next
      case (Cons a ps')
      with e have "pieces r (length rest0 = length s) rest0 = ps' @ Hit m c # qs" by simp
      from 1(2)[OF Some p[symmetric] this] show ?thesis .
    qed
  qed
qed

text \<open>
  A match of the pattern of fix-synthesis-tests.py begins with ten blanks and an opening
  brace; so none begins in a run of text without an opening brace that a line break or
  the end of the text follows.
\<close>

lemma syn_match_start:
  assumes "(rest, c) \<in> set (ms syn_pattern s [])"
  shows "\<exists>t. s = (sp10 @ ''{'') @ t"
proof -
  from syn_pattern_shape[OF assms] obtain a e ds dp x du where
    "s = sp10 @ flat_body sp12 e sp12 (''0.'' @ ds @ a) sp12 dp sp12 (''{'' @ x @ ''}'')
           sp12 sp12 du sp10 @ rest" by blast
  then show ?thesis by (simp add: flat_body_def)
qed

lemma no_start_in_line:
  assumes "k @ t = (sp10 @ ''{'') @ t'" and "CHR ''{'' \<notin> set k" and "t = [] \<or> hd t = nl"
  shows False
proof -
  from assms(1) obtain us where
    "(k = (sp10 @ ''{'') @ us \<and> us @ t = t') \<or> (k @ us = sp10 @ ''{'' \<and> t = us @ t')"
    unfolding append_eq_append_conv2 by blast
  then show False
  proof
    assume "k = (sp10 @ ''{'') @ us \<and> us @ t = t'"
    then have "CHR ''{'' \<in> set k" by simp
    then show False using assms(2) by simp
  next
    assume a: "k @ us = sp10 @ ''{'' \<and> t = us @ t'"
    show False
    proof (cases us)
      case Nil
      with a have "k = sp10 @ ''{''" by simp
      then have "CHR ''{'' \<in> set k" by simp
      then show False using assms(2) by simp
    next
      case (Cons u us')
      with a have "hd t = u" "t \<noteq> []" by simp_all
      then have "u = nl" using assms(3) by simp
      moreover have "u \<in> set (sp10 @ ''{'')" using a Cons by (metis in_set_conv_decomp)
      ultimately show False by (simp add: sp10_def)
    qed
  qed
qed

lemma syn_keep_line:
  assumes "CHR ''{'' \<notin> set k" and "t = [] \<or> hd t = nl"
  shows "pieces syn_pattern False (k @ t) = map Keep k @ pieces syn_pattern False t"
  using assms(1)
proof (induction k)
  case Nil
  then show ?case by simp
next
  case (Cons x k)
  have "ms syn_pattern (x # k @ t) [] = []"
  proof (rule ccontr)
    assume "ms syn_pattern (x # k @ t) [] \<noteq> []"
    then obtain rest c where "(rest, c) \<in> set (ms syn_pattern ((x # k) @ t) [])"
      by (cases "ms syn_pattern (x # k @ t) []") auto
    from syn_match_start[OF this] obtain t' where "(x # k) @ t = (sp10 @ ''{'') @ t'" by blast
    from no_start_in_line[OF this Cons.prems assms(2)] show False .
  qed
  then have "match_here syn_pattern False (x # k @ t) = None" by (simp add: match_here_def)
  then have "pieces syn_pattern False ((x # k) @ t) = Keep x # pieces syn_pattern False (k @ t)"
    by (subst pieces.simps) simp
  then show ?case using Cons by simp
qed

lemma syn_template_end: "\<exists>b. syn_replacement c = b @ ''} as any''"
proof -
  have "syn_replacement c = expand c (butlast syn_template) @ sp10 @ ''} as any''"
    by (simp add: syn_replacement_def syn_template_def sp10_def)
  then have "syn_replacement c = (expand c (butlast syn_template) @ sp10) @ ''} as any''"
    by simp
  then show ?thesis by blast
qed

lemma syn_hit_end:
  assumes "Hit m c \<in> set (pieces syn_pattern must s)"
  shows "\<exists>b. m = b @ ''}''"
proof -
  from syn_hit[OF assms] obtain a e ds dp x du where
    "m = sp10 @ flat_body sp12 e sp12 (''0.'' @ ds @ a) sp12 dp sp12 (''{'' @ x @ ''}'')
           sp12 sp12 du sp10" by blast
  then have "m = (sp10 @ ''{'' @ [nl] @
     sp12 @ ''extractorId: '' @ [sq] @ e @ [sq] @ '','' @ [nl] @
     sp12 @ ''confidence: '' @ (''0.'' @ ds @ a) @ '','' @ [nl] @
     sp12 @ ''dataPoints: '' @ dp @ '','' @ [nl] @
     sp12 @ ''data: '' @ (''{'' @ x @ ''}'') @ '','' @ [nl] @
     sp12 @ ''timestamp: Date.now(),'' @ [nl] @
     sp12 @ ''duration: '' @ du @ '','' @ [nl] @
     sp10) @ ''}''" by (simp add: flat_body_def)
  then show ?thesis by blast
qed




















section \<open>The example of the specification\<close>

text \<open>
  C1 (as amended). The fields of the example, laid out over lines as each pattern requires
  (for fix-megaprompt-tests.py after leading blanks and before \<^verbatim>\<open> as ExtractionResult\<close>,
  for fix-synthesis-tests.py indented by ten and twelve blanks), are rewritten to the
  nested literal: \<^verbatim>\<open>metadata.extractorId\<close> is \<^verbatim>\<open>'demographics'\<close>,
  \<^verbatim>\<open>confidence.overall\<close> is \<^verbatim>\<open>0.85\<close>, \<^verbatim>\<open>confidence.sourceCount\<close> is \<^verbatim>\<open>3\<close>,
  \<^verbatim>\<open>metadata.timing.total\<close> is \<^verbatim>\<open>120\<close> and \<^verbatim>\<open>data\<close> is \<^verbatim>\<open>{foo: 1}\<close>.
\<close>

theorem C1_flat_block_rewritten:
  "mp_rewrite mp_flat = mp_nested \<and> syn_rewrite syn_flat = syn_nested"
proof -
  have 1: "re_sub mp_pattern mp_replacement mp_flat = mp_nested"
    by (simp del: ms.simps add: run_defs mp_pattern_def mp_body_def mp_replacement_def mp_flat_def
        mp_nested_def)
  have "CHR ''['' \<notin> set mp_nested" by (simp add: mp_nested_def)
  then have 2: "re_sub mp_pattern2 mp_replacement2 mp_nested = mp_nested"
    using re_sub_absent[OF mp2_has_br] by blast
  have 3: "syn_rewrite syn_flat = syn_nested"
    by (simp del: ms.simps add: run_defs syn_rewrite_def syn_pattern_def syn_replacement_def
        syn_template_def syn_flat_def syn_nested_def)
  show ?thesis using 1 2 3 by (simp add: mp_rewrite_def)
qed

text \<open>
  The literal as the specification writes it, on one line, holds no line break, and every
  pattern needs one: neither script changes it.
\<close>

theorem C1_literal_unchanged:
  "mp_rewrite c1_literal = c1_literal \<and> syn_rewrite c1_literal = c1_literal"
proof -
  have n: "nl \<notin> set c1_literal" by (simp add: c1_literal_def)
  show ?thesis
    using re_sub_absent[OF mp_has_nl n] re_sub_absent[OF mp2_has_nl n] re_sub_absent[OF syn_has_nl n]
    by (simp add: mp_rewrite_def syn_rewrite_def)
qed

section \<open>What a substitution changes\<close>

lemma pieces_Hit_lang: "Hit m c \<in> set (pieces r must s) \<Longrightarrow> m \<in> lang r"
proof -
  assume "Hit m c \<in> set (pieces r must s)"
  then obtain u rest where "(rest, c) \<in> set (ms r (m @ rest) [])" using pieces_Hit by blast
  then obtain v where "v \<in> lang r" "m @ rest = v @ rest" using ms_sound by blast
  then show ?thesis by simp
qed

text \<open>
  C2. A substitution changes the text only inside the spans its pattern matches. The loop
  cuts the text into pieces, kept characters and matched spans; the pieces put together
  are the input; the output is the same pieces with each matched span replaced by what
  the rule makes of it, and every kept character is copied as it is.
\<close>

theorem C2_frame:
  "concat (map source (pieces r False s)) = s \<and>
   concat (map (render f) (pieces r False s)) = re_sub r f s \<and>
   (\<forall>p\<in>set (pieces r False s).
      (\<exists>x. p = Keep x \<and> render f p = source p) \<or>
      (\<exists>m c. p = Hit m c \<and> m \<in> lang r \<and> source p = m \<and> render f p = f c))"
proof (intro conjI ballI)
  show "concat (map source (pieces r False s)) = s" by (rule pieces_source)
  show "concat (map (render f) (pieces r False s)) = re_sub r f s" by (simp add: re_sub_def)
  fix p assume p: "p \<in> set (pieces r False s)"
  show "(\<exists>x. p = Keep x \<and> render f p = source p) \<or>
      (\<exists>m c. p = Hit m c \<and> m \<in> lang r \<and> source p = m \<and> render f p = f c)"
  proof (cases p)
    case (Keep x)
    then show ?thesis by simp
  next
    case (Hit m c)
    then have "m \<in> lang r" using p pieces_Hit_lang by blast
    then show ?thesis using Hit by simp
  qed
qed

theorem C2_frame_witness:
  "(\<exists>c. pieces syn_pattern False (syn_flat @ '' as X'') =
        Hit syn_flat c # map Keep '' as X'') \<and>
   syn_flat \<in> lang syn_pattern \<and>
   re_sub syn_pattern syn_replacement (syn_flat @ '' as X'') = syn_nested @ '' as X''"
proof -
  have e: "\<exists>c. pieces syn_pattern False (syn_flat @ '' as X'') = Hit syn_flat c # map Keep '' as X''"
    by (simp del: ms.simps add: run_defs syn_pattern_def syn_flat_def)
  then obtain c where c: "pieces syn_pattern False (syn_flat @ '' as X'') = Hit syn_flat c # map Keep '' as X''"
    by blast
  have "Hit syn_flat c \<in> set (pieces syn_pattern False (syn_flat @ '' as X''))" using c by simp
  then have l: "syn_flat \<in> lang syn_pattern"
    using C2_frame[of syn_pattern "syn_flat @ '' as X''" syn_replacement] by fastforce
  have r: "re_sub syn_pattern syn_replacement (syn_flat @ '' as X'') = syn_nested @ '' as X''"
    by (simp del: ms.simps add: run_defs syn_pattern_def syn_replacement_def
        syn_template_def syn_flat_def syn_nested_def)
  show ?thesis using e l r by blast
qed

text \<open>
  C3. On a text in which the pattern occurs nowhere (no part of the text is in its
  language), the substitution returns the text as it is, and the script that runs it on a
  file with that text raises nothing and writes the same text back.
\<close>

theorem C3_no_match_unchanged:
  assumes "\<forall>u v w. s = u @ v @ w \<longrightarrow> v \<notin> lang r"
  shows "re_sub r f s = s \<and>
         raised (run_script path (re_sub r f) (fs(path \<mapsto> s))) = None \<and>
         files (run_script path (re_sub r f) (fs(path \<mapsto> s))) = fs(path \<mapsto> s)"
proof -
  have "re_sub r f s = s" using assms by (intro re_sub_no_match) blast
  then show ?thesis by (simp add: run_script_def)
qed

theorem C3_no_match_unchanged_witness:
  "re_sub syn_pattern syn_replacement ''const x = 1;'' = ''const x = 1;'' \<and>
   raised (fix_synthesis_tests (Map.empty(syn_filepath \<mapsto> ''const x = 1;''))) = None"
proof -
  have h: "\<forall>u v w. ''const x = 1;'' = u @ v @ w \<longrightarrow> v \<notin> lang syn_pattern"
  proof (intro allI impI)
    fix u v w :: string assume "''const x = 1;'' = u @ v @ w"
    then have "set v \<subseteq> set ''const x = 1;''" by (metis set_append sup_ge1 sup_ge2 subset_trans)
    then have "nl \<notin> set v" by auto
    then show "v \<notin> lang syn_pattern" using must_have_lang[OF syn_has_nl] by blast
  qed
  from C3_no_match_unchanged[OF h, of syn_replacement syn_filepath Map.empty]
  show ?thesis by (simp add: fix_synthesis_tests_def run_script_def syn_rewrite_def)
qed

section \<open>The scripts on a missing file\<close>

text \<open>
  C7. When the target path does not exist, either script stops with FileNotFoundError
  before it writes: the exit status is not zero, nothing is printed and the file system is
  the one it started from.
\<close>

theorem C7_missing_file:
  "(fs mp_filepath = None \<longrightarrow>
      raised (fix_megaprompt_tests fs) = Some FileNotFoundError \<and>
      exit_status (fix_megaprompt_tests fs) \<noteq> 0 \<and>
      files (fix_megaprompt_tests fs) = fs \<and> stdout (fix_megaprompt_tests fs) = []) \<and>
   (fs syn_filepath = None \<longrightarrow>
      raised (fix_synthesis_tests fs) = Some FileNotFoundError \<and>
      exit_status (fix_synthesis_tests fs) \<noteq> 0 \<and>
      files (fix_synthesis_tests fs) = fs \<and> stdout (fix_synthesis_tests fs) = [])"
  by (simp add: fix_megaprompt_tests_def fix_synthesis_tests_def run_script_def exit_status_def)

theorem C7_missing_file_witness:
  "Map.empty mp_filepath = None \<and> Map.empty syn_filepath = None \<and>
   raised (fix_megaprompt_tests Map.empty) = Some FileNotFoundError \<and>
   exit_status (fix_megaprompt_tests Map.empty) = 1 \<and>
   files (fix_megaprompt_tests Map.empty) = Map.empty \<and>
   raised (fix_synthesis_tests Map.empty) = Some FileNotFoundError \<and>
   exit_status (fix_synthesis_tests Map.empty) = 1 \<and>
   files (fix_synthesis_tests Map.empty) = Map.empty"
  using C7_missing_file [of Map.empty]
  by (simp add: fix_megaprompt_tests_def fix_synthesis_tests_def run_script_def exit_status_def)

section \<open>Which blocks are rewritten\<close>

text \<open>
  C8. Whatever the text, a span that a rule rewrites is a flat block whose confidence is
  \<^verbatim>\<open>0.\<close> and one or more digits (in fix-synthesis-tests.py possibly followed by
  \<^verbatim>\<open> as any\<close>), and that number is what the rule captures. A flat block whose
  confidence is written in another way (\<^verbatim>\<open>1\<close>, \<^verbatim>\<open>1.0\<close>, anything without a
  comma that is not of that form) is matched by no pattern, and a text in which
  \<^verbatim>\<open>confidence: 0.\<close> occurs nowhere comes out of both scripts as it went in.
\<close>

theorem C8_confidence_form:
  "(Hit m c \<in> set (pieces mp_pattern False s) \<or> Hit m c \<in> set (pieces mp_pattern2 False s) \<longrightarrow>
     (\<exists>w0 w1 e w2 ds w3 dp w4 d w5 w6 du w7.
        m = w0 @ flat_body w1 e w2 (''0.'' @ ds) w3 dp w4 d w5 w6 du w7 @ '' as ExtractionResult'' \<and>
        digits ds \<and> group c 4 = ''0.'' @ ds)) \<and>
   (Hit m c \<in> set (pieces syn_pattern False s) \<longrightarrow>
     (\<exists>e ds a dp d du.
        m = sp10 @ flat_body sp12 e sp12 (''0.'' @ ds @ a) sp12 dp sp12 d sp12 sp12 du sp10 \<and>
        digits ds \<and> (a = [] \<or> a = '' as any'') \<and> group c 2 = ''0.'' @ ds)) \<and>
   (spaces w0 \<and> spaces w1 \<and> spaces w2 \<and> free_of sq e \<and> CHR '','' \<notin> set cf \<and>
    v = w0 @ flat_body w1 e w2 cf w3 dp w4 d w5 w6 du w7 @ sfx \<longrightarrow>
      (v \<in> lang mp_pattern \<or> v \<in> lang mp_pattern2 \<longrightarrow> (\<exists>ds. digits ds \<and> cf = ''0.'' @ ds)) \<and>
      (v \<in> lang syn_pattern \<longrightarrow>
         (\<exists>ds a. digits ds \<and> (a = [] \<or> a = '' as any'') \<and> cf = ''0.'' @ ds @ a))) \<and>
   (\<not> has_text ''confidence: 0.'' s \<longrightarrow> mp_rewrite s = s \<and> syn_rewrite s = s)"
proof (intro conjI impI)
  assume "Hit m c \<in> set (pieces mp_pattern False s) \<or> Hit m c \<in> set (pieces mp_pattern2 False s)"
  then show "\<exists>w0 w1 e w2 ds w3 dp w4 d w5 w6 du w7.
        m = w0 @ flat_body w1 e w2 (''0.'' @ ds) w3 dp w4 d w5 w6 du w7 @ '' as ExtractionResult'' \<and>
        digits ds \<and> group c 4 = ''0.'' @ ds"
  proof
    assume "Hit m c \<in> set (pieces mp_pattern False s)"
    then show ?thesis by (rule mp_hit_conf)
  next
    assume "Hit m c \<in> set (pieces mp_pattern2 False s)"
    then show ?thesis by (rule mp2_hit_conf)
  qed
next
  assume "Hit m c \<in> set (pieces syn_pattern False s)"
  then show "\<exists>e ds a dp d du.
        m = sp10 @ flat_body sp12 e sp12 (''0.'' @ ds @ a) sp12 dp sp12 d sp12 sp12 du sp10 \<and>
        digits ds \<and> (a = [] \<or> a = '' as any'') \<and> group c 2 = ''0.'' @ ds"
    by (rule syn_hit_conf)
next
  assume h: "spaces w0 \<and> spaces w1 \<and> spaces w2 \<and> free_of sq e \<and> CHR '','' \<notin> set cf \<and>
    v = w0 @ flat_body w1 e w2 cf w3 dp w4 d w5 w6 du w7 @ sfx"
  assume l: "v \<in> lang mp_pattern \<or> v \<in> lang mp_pattern2"
  from h have "v = w0 @ flat_body w1 e w2 cf w3 dp w4 d w5 w6 du w7 @ sfx" "spaces w0"
    "spaces w1" "spaces w2" "free_of sq e" "CHR '','' \<notin> set cf" by blast+
  then show "\<exists>ds. digits ds \<and> cf = ''0.'' @ ds" using l by (rule mp_lang_conf)
next
  assume h: "spaces w0 \<and> spaces w1 \<and> spaces w2 \<and> free_of sq e \<and> CHR '','' \<notin> set cf \<and>
    v = w0 @ flat_body w1 e w2 cf w3 dp w4 d w5 w6 du w7 @ sfx"
  assume l: "v \<in> lang syn_pattern"
  from h have "v = w0 @ flat_body w1 e w2 cf w3 dp w4 d w5 w6 du w7 @ sfx" "spaces w0"
    "spaces w1" "spaces w2" "free_of sq e" "CHR '','' \<notin> set cf" by blast+
  then show "\<exists>ds a. digits ds \<and> (a = [] \<or> a = '' as any'') \<and> cf = ''0.'' @ ds @ a"
    using l by (rule syn_lang_conf)
next
  assume n: "\<not> has_text ''confidence: 0.'' s"
  show "mp_rewrite s = s" using no_conf_unchanged[OF n] by (rule conjunct1)
  show "syn_rewrite s = s" using no_conf_unchanged[OF n] by (rule conjunct2)
qed

theorem C8_confidence_form_witness:
  "(\<exists>c ds. Hit (syn_block ''0.85'') c \<in> set (pieces syn_pattern False (syn_block ''0.85'')) \<and>
       digits ds \<and> group c 2 = ''0.'' @ ds) \<and>
   syn_block ''1.0'' \<notin> lang syn_pattern \<and>
   mp_block ''1'' \<notin> lang mp_pattern \<and> mp_block ''1'' \<notin> lang mp_pattern2 \<and>
   syn_rewrite (syn_block ''1.0'') = syn_block ''1.0'' \<and>
   mp_rewrite (mp_block ''1'') = mp_block ''1''"
proof -
  note T = C8_confidence_form
  from syn_block_hit obtain c where
    c: "Hit (syn_block ''0.85'') c \<in> set (pieces syn_pattern False (syn_block ''0.85''))"
    by auto
  have a: "\<exists>c ds. Hit (syn_block ''0.85'') c \<in> set (pieces syn_pattern False (syn_block ''0.85'')) \<and>
       digits ds \<and> group c 2 = ''0.'' @ ds"
    using T[of "syn_block ''0.85''" c "syn_block ''0.85''"] c by blast
  have sb: "syn_block ''1.0'' = sp10 @ flat_body sp12 ''demographics'' sp12 ''1.0'' sp12 ''3'' sp12
      ''{foo: 1}'' sp12 sp12 ''120'' sp10 @ []" by (simp add: syn_block_def)
  have c1: "CHR '','' \<notin> set ''1.0''" by simp
  have b: "syn_block ''1.0'' \<notin> lang syn_pattern"
    using T[of _ _ _ sp10 sp12 sp12 "''demographics''" "''1.0''"
        "syn_block ''1.0''" sp12 "''3''" sp12 "''{foo: 1}''" sp12 sp12 "''120''" sp10 "[]"]
      spaces_sp(1,2) demographics_free c1 sb conf_1_0_other by blast
  have mb: "mp_block ''1'' = ''      '' @ flat_body ''        '' ''demographics'' ''        '' ''1''
     ''        '' ''3'' ''        '' ''{foo: 1}'' ''        '' ''        '' ''120'' ''      '' @
     '' as ExtractionResult''" by (simp only: mp_block_def)
  have c2: "CHR '','' \<notin> set ''1''" by simp
  have d: "mp_block ''1'' \<notin> lang mp_pattern \<and> mp_block ''1'' \<notin> lang mp_pattern2"
    using T[of _ _ _ "''      ''" "''        ''" "''        ''" "''demographics''" "''1''"
        "mp_block ''1''" "''        ''" "''3''" "''        ''" "''{foo: 1}''" "''        ''" "''        ''"
        "''120''" "''      ''" "'' as ExtractionResult''"]
      spaces_sp(3,4) demographics_free c2 mb conf_1_other by blast
  have e: "syn_rewrite (syn_block ''1.0'') = syn_block ''1.0''"
    using T[of _ _ "syn_block ''1.0''"] syn_block_no_conf by blast
  have f: "mp_rewrite (mp_block ''1'') = mp_block ''1''"
    using T[of _ _ "mp_block ''1''"] mp_block_no_conf by blast
  show ?thesis using a b d e f by blast
qed

text \<open>
  C8, as the specification states it, fails on this text: the flat block with confidence
  \<^verbatim>\<open>1\<close> stands in the list of insights of a block that the second rule of
  fix-megaprompt-tests.py matches, and the rule, which does not copy the insights, deletes
  it with them.
\<close>

theorem C8_other_confidence_deleted:
  "mp_rewrite c8_outer = c8_outer_rewritten \<and>
   has_text c8_inner c8_outer \<and> \<not> has_text c8_inner (mp_rewrite c8_outer)"
proof -
  have 1: "mp_rewrite c8_outer = c8_outer_rewritten" by code_simp
  have 2: "has_text c8_inner c8_outer" by code_simp
  have 3: "\<not> has_text c8_inner c8_outer_rewritten" by code_simp
  show ?thesis using 1 2 3 by simp
qed

section \<open>The data value of a match\<close>




section \<open>What follows a match of fix-synthesis-tests.py\<close>

text \<open>
  C10 (as amended). The pattern of fix-synthesis-tests.py ends at the closing brace of the
  flat block: a match ends with that brace and takes nothing after it. The text put in its
  place ends with \<^verbatim>\<open>} as any\<close>, and the substitution goes on with the text after the
  brace: the output is what was made of the text before the match, the replacement, and
  the rewriting of the text after the match. A run of text after the brace that has no
  opening brace and reaches a line break or the end of the text (such as a cast
  \<^verbatim>\<open> as ExtractionResult\<close>) is copied right after \<^verbatim>\<open>} as any\<close>.
\<close>

theorem C10_nothing_taken_after_brace:
  "pieces syn_pattern False s = ps @ Hit m c # qs \<longrightarrow>
     (\<exists>b. m = b @ ''}'') \<and> (\<exists>b. syn_replacement c = b @ ''} as any'') \<and>
     s = concat (map source ps) @ m @ concat (map source qs) \<and>
     syn_rewrite s = concat (map (render syn_replacement) ps) @ syn_replacement c @
                     syn_rewrite (concat (map source qs)) \<and>
     (\<forall>k t. concat (map source qs) = k @ t \<and> CHR ''{'' \<notin> set k \<and> (t = [] \<or> hd t = nl) \<longrightarrow>
        syn_rewrite s = concat (map (render syn_replacement) ps) @ syn_replacement c @ k @
                        syn_rewrite t)"
proof
  assume p: "pieces syn_pattern False s = ps @ Hit m c # qs"
  then have "Hit m c \<in> set (pieces syn_pattern False s)" by simp
  from syn_hit_end[OF this] obtain b where b: "m = b @ ''}''" by blast
  then have ne: "(m = []) = False" by simp
  have src: "s = concat (map source ps) @ m @ concat (map source qs)"
    using pieces_source[of syn_pattern False s] unfolding p by simp
  have "qs = pieces syn_pattern False (concat (map source qs))"
    using pieces_tail[OF p] unfolding ne .
  then have "concat (map (render syn_replacement) qs) = syn_rewrite (concat (map source qs))"
    by (simp add: syn_rewrite_def re_sub_def)
  then have out: "syn_rewrite s = concat (map (render syn_replacement) ps) @ syn_replacement c @
                     syn_rewrite (concat (map source qs))"
    unfolding syn_rewrite_def re_sub_def p by simp
  have line: "syn_rewrite s = concat (map (render syn_replacement) ps) @ syn_replacement c @ k @
                        syn_rewrite t"
    if "concat (map source qs) = k @ t \<and> CHR ''{'' \<notin> set k \<and> (t = [] \<or> hd t = nl)" for k t
  proof -
    from that have "pieces syn_pattern False (k @ t) = map Keep k @ pieces syn_pattern False t"
      using syn_keep_line by blast
    then have "syn_rewrite (k @ t) = k @ syn_rewrite t"
      by (simp add: syn_rewrite_def re_sub_def comp_def)
    then show ?thesis using out that by simp
  qed
  show "(\<exists>b. m = b @ ''}'') \<and> (\<exists>b. syn_replacement c = b @ ''} as any'') \<and>
     s = concat (map source ps) @ m @ concat (map source qs) \<and>
     syn_rewrite s = concat (map (render syn_replacement) ps) @ syn_replacement c @
                     syn_rewrite (concat (map source qs)) \<and>
     (\<forall>k t. concat (map source qs) = k @ t \<and> CHR ''{'' \<notin> set k \<and> (t = [] \<or> hd t = nl) \<longrightarrow>
        syn_rewrite s = concat (map (render syn_replacement) ps) @ syn_replacement c @ k @
                        syn_rewrite t)"
    using b syn_template_end[of c] src out line by blast
qed

theorem C10_nothing_taken_after_brace_witness:
  "syn_rewrite (syn_flat @ '' as ExtractionResult,'' @ [nl]) =
     syn_nested @ '' as ExtractionResult,'' @ [nl]"
proof -
  have "\<exists>c. pieces syn_pattern False (syn_flat @ '' as ExtractionResult,'' @ [nl]) =
        [] @ Hit syn_flat c # map Keep ('' as ExtractionResult,'' @ [nl]) \<and>
        syn_replacement c = syn_nested"
    by (simp del: ms.simps add: run_defs syn_pattern_def syn_replacement_def
        syn_template_def syn_flat_def syn_nested_def)
  then obtain c where
    p: "pieces syn_pattern False (syn_flat @ '' as ExtractionResult,'' @ [nl]) =
        [] @ Hit syn_flat c # map Keep ('' as ExtractionResult,'' @ [nl])"
    and r: "syn_replacement c = syn_nested" by blast
  have n: "syn_rewrite [nl] = [nl]"
    by (simp del: ms.simps add: run_defs syn_rewrite_def syn_pattern_def)
  have a: "\<forall>k t. concat (map source (map Keep ('' as ExtractionResult,'' @ [nl]))) = k @ t \<and>
       CHR ''{'' \<notin> set k \<and> (t = [] \<or> hd t = nl) \<longrightarrow>
       syn_rewrite (syn_flat @ '' as ExtractionResult,'' @ [nl]) =
       concat (map (render syn_replacement) []) @ syn_replacement c @ k @ syn_rewrite t"
    using C10_nothing_taken_after_brace[of "syn_flat @ '' as ExtractionResult,'' @ [nl]" "[]"
        syn_flat c "map Keep ('' as ExtractionResult,'' @ [nl])"] p by blast
  have h: "concat (map source (map Keep ('' as ExtractionResult,'' @ [nl]))) =
       '' as ExtractionResult,'' @ [nl] \<and>
       CHR ''{'' \<notin> set '' as ExtractionResult,'' \<and> ([nl] = [] \<or> hd [nl] = nl)"
    by simp
  have "syn_rewrite (syn_flat @ '' as ExtractionResult,'' @ [nl]) =
      concat (map (render syn_replacement) []) @ syn_replacement c @ '' as ExtractionResult,'' @
      syn_rewrite [nl]"
    by (rule a[rule_format, OF h])
  then show ?thesis using r n by simp
qed

text \<open>
  C10, as the specification states it, fails when the text after the brace is itself a flat
  block: the rule rewrites it in its turn, so what stands after \<^verbatim>\<open>} as any\<close> is not the
  text that followed the brace.
\<close>

theorem C10_following_block_rewritten:
  "syn_rewrite (syn_flat @ syn_flat) = syn_nested @ syn_nested \<and>
   syn_rewrite (syn_flat @ syn_flat) \<noteq> syn_nested @ syn_flat"
proof -
  have 1: "syn_rewrite (syn_flat @ syn_flat) = syn_nested @ syn_nested"
    by (simp del: ms.simps add: run_defs syn_rewrite_def syn_pattern_def syn_replacement_def
        syn_template_def syn_flat_def syn_nested_def)
  have 2: "syn_nested \<noteq> syn_flat" by (simp add: syn_nested_def syn_flat_def)
  show ?thesis using 1 2 by simp
qed

section \<open>Indentation\<close>




end
